theory Spec2Isabelle
  imports Main
begin

section \<open>Data model\<close>

text \<open>
  The library wraps the platform's one-shot primitive (the native AbortController with
  its AbortSignal).  Objects live in a store and are named by their index; closures are
  the values of a datatype, one constructor per closure that the source creates.
\<close>

type_synonym addr = nat

text \<open>Values a signal's \<open>reason\<close> can hold: \<open>undefined\<close> before the abort, the
  string given to \<open>abort\<close>, or the "AbortError" DOMException the platform stores when
  \<open>abort\<close> is called without a reason.\<close>

datatype jsval = Undefined | JString string | DOMAbortError

text \<open>Closures that are invoked as abort listeners, timer callbacks or directly:
  \<^item> \<open>UserCallback n\<close>: a caller's callback; its only effect here is the entry \<open>n\<close>
    in the log of calls;
  \<^item> \<open>NativeAbort a r\<close>: \<open>controller.abort(r)\<close> of the native controller \<open>a\<close>
    (\<open>() => controller.abort()\<close> in \<open>EnhancedAbortSignal.any\<close> and \<open>timeout\<close>);
  \<^item> \<open>ControllerAbort c r\<close>: \<open>abort(r)\<close> of the EnhancedAbortController \<open>c\<close>
    (\<open>() => controller.abort()\<close> in \<open>linkSignals\<close>, \<open>() => this.abort()\<close> in
    \<open>abortAfter\<close>);
  \<^item> \<open>Resolve p\<close>: \<open>() => resolve()\<close> of the promise \<open>p\<close> in \<open>whenAborted\<close>.\<close>

datatype callback =
    UserCallback nat
  | NativeAbort addr "string option"
  | ControllerAbort addr "string option"
  | Resolve addr

text \<open>The function handed to \<open>new AbortRegistration\<close>:
  \<open>() => this.abortSignal.removeEventListener('abort', listener)\<close> and \<open>() => {}\<close>
  are the library's own; the class is exported, so a caller can construct a registration
  with a function of their own:
  \<^item> \<open>UserAction n\<close> returns normally and does not touch the registration;
  \<^item> \<open>ThrowingAction n\<close> throws (the value \<open>CallerThrown n\<close>);
  \<^item> \<open>ReentrantAction n k\<close> is the closure
    \<open>() => { count++; if (count <= k) registration.unregister(); }\<close>: it calls
    \<open>unregister\<close> of the registration that holds it again, \<open>k\<close> more times (the
    closure's counter is kept in the value).\<close>

datatype unregister_action =
    RemoveEventListener addr nat
  | EmptyAction
  | UserAction nat
  | ThrowingAction nat
  | ReentrantAction nat nat

text \<open>A native AbortSignal (one per native AbortController, at the same address).  Every
  listener is added with \<open>{ once: true }\<close> and has its own identity.\<close>

record native_signal =
  aborted :: bool
  reason :: jsval
  listeners :: "(nat \<times> callback) list"

record enhanced_signal =
  abortSignal :: addr
  private_canBeAborted :: bool

record enhanced_controller =
  controller :: addr
  private_signal :: enhanced_signal
  timeoutId :: "nat option"
  disposed :: bool

record registration =
  registration_disposed :: bool
  unregisterCallback :: "unregister_action option"

datatype promise = Pending | Resolved

text \<open>A job of the microtask queue: \<open>() => registration.unregister()\<close>.\<close>

datatype job = UnregisterJob addr

record timer =
  timer_id :: nat
  due :: nat
  timer_callback :: callback

record state =
  signals :: "native_signal list"
  controllers :: "enhanced_controller list"
  registrations :: "registration list"
  promises :: "promise list"
  timers :: "timer list"
  microtasks :: "job list"
  now :: nat
  fresh :: nat
  calls :: "nat list"
  action_log :: "unregister_action list"

definition init :: state where
  "init = \<lparr>signals = [], controllers = [], registrations = [], promises = [],
           timers = [], microtasks = [], now = 0, fresh = 0, calls = [], action_log = []\<rparr>"

section \<open>Platform primitives\<close>

text \<open>
  Modelled from the spec: the platform's one-shot primitive (the native AbortController
  and AbortSignal) and its timer service are not code of this repository.  The
  specification asks of the primitive: query the fired state, query the reason, fire once
  with a reason, add a listener that is removed after its first invocation, remove a
  listener; timers are cancellable scheduled callbacks.  The definitions of this section
  and the clauses of \<open>run\<close> for \<open>NativeAbort\<close> give exactly these operations:
  \<^item> \<open>abort\<close> on an aborted signal does nothing; on a live one it sets the state
    and the reason and then calls the listeners in the order they were added;
  \<^item> a listener added with \<open>{ once: true }\<close> is dropped when it is called;
  \<^item> the native \<open>abort\<close> called without a reason (or with \<open>undefined\<close>) stores
    the platform's own default reason, an "AbortError" DOMException;
  \<^item> \<open>setTimeout\<close> returns a new handle and queues the callback on a logical
    clock; \<open>clearTimeout\<close> takes the timer with that handle off the queue.  The
    source types the handle as \<open>NodeJS.Timeout\<close>: the timer is Node's, which runs a
    delay below 1 ms or above \<open>TIMEOUT_MAX\<close> (2^31 - 1 ms) as a delay of 1 ms;
  \<^item> the dispatch of the abort event catches what a listener throws and reports it
    outside the program: nothing a listener throws escapes from \<open>abort\<close>.
\<close>

text \<open>The reason the platform stores on abort: the one given, else the default
  DOMException.\<close>

definition stored_reason :: "string option \<Rightarrow> jsval" where
  "stored_reason r = (case r of None \<Rightarrow> DOMAbortError | Some v \<Rightarrow> JString v)"

definition new_AbortController :: "state \<Rightarrow> addr \<times> state" where
  "new_AbortController s =
     (length (signals s),
      s\<lparr>signals := signals s @ [\<lparr>aborted = False, reason = Undefined, listeners = []\<rparr>]\<rparr>)"

definition addEventListener :: "addr \<Rightarrow> callback \<Rightarrow> state \<Rightarrow> nat \<times> state" where
  "addEventListener a cb s =
     (fresh s,
      s\<lparr>signals := (signals s)[a := (signals s ! a)\<lparr>listeners := listeners (signals s ! a) @ [(fresh s, cb)]\<rparr>],
        fresh := Suc (fresh s)\<rparr>)"

definition removeEventListener :: "addr \<Rightarrow> nat \<Rightarrow> state \<Rightarrow> state" where
  "removeEventListener a l s =
     s\<lparr>signals := (signals s)[a := (signals s ! a)\<lparr>listeners := filter (\<lambda>e. fst e \<noteq> l) (listeners (signals s ! a))\<rparr>]\<rparr>"

definition TIMEOUT_MAX :: nat where
  "TIMEOUT_MAX = 2147483647"

text \<open>\<open>if (!(after >= 1 && after <= TIMEOUT_MAX)) after = 1\<close>.\<close>

definition timer_delay :: "nat \<Rightarrow> nat" where
  "timer_delay ms = (if 1 \<le> ms \<and> ms \<le> TIMEOUT_MAX then ms else 1)"

definition setTimeout :: "callback \<Rightarrow> nat \<Rightarrow> state \<Rightarrow> nat \<times> state" where
  "setTimeout cb ms s =
     (fresh s,
      s\<lparr>timers := timers s @
           [\<lparr>timer_id = fresh s, due = now s + timer_delay ms, timer_callback = cb\<rparr>],
        fresh := Suc (fresh s)\<rparr>)"

definition clearTimeout_native :: "nat \<Rightarrow> state \<Rightarrow> state" where
  "clearTimeout_native i s = s\<lparr>timers := filter (\<lambda>t. timer_id t \<noteq> i) (timers s)\<rparr>"

section \<open>EnhancedAbortController: abort and the dispatch of listeners\<close>

text \<open>\<open>EnhancedAbortController.clearTimeout\<close> (private).\<close>

definition clearTimeout :: "addr \<Rightarrow> state \<Rightarrow> state" where
  "clearTimeout c s =
     (case timeoutId (controllers s ! c) of
        None \<Rightarrow> s
      | Some i \<Rightarrow> (clearTimeout_native i s)
                   \<lparr>controllers := (controllers s)[c := (controllers s ! c)\<lparr>timeoutId := None\<rparr>]\<rparr>)"

definition live :: "native_signal list \<Rightarrow> nat" where
  "live xs = length (filter (\<lambda>x. \<not> aborted x) xs)"

fun weight :: "callback \<Rightarrow> nat" where
  "weight (ControllerAbort c r) = 2"
| "weight _ = 1"

text \<open>
  Synchronous execution of calls.  The list is the work still to do on the call stack: a
  call that aborts a live native signal puts the signal's listeners, in registration
  order, in front of the rest (the dispatch of the abort event runs them before
  \<open>abort\<close> returns).  The native \<open>abort\<close> does nothing on an aborted signal; since
  every listener is \<open>once\<close>, the dispatch leaves none on the signal.
  \<open>ControllerAbort\<close> is \<open>EnhancedAbortController.abort\<close>.
\<close>

function run :: "callback list \<Rightarrow> state \<Rightarrow> state" where
  "run [] s = s"
| "run (UserCallback n # k) s = run k (s\<lparr>calls := calls s @ [n]\<rparr>)"
| "run (Resolve p # k) s = run k (s\<lparr>promises := (promises s)[p := Resolved]\<rparr>)"
| "run (NativeAbort a r # k) s =
     (if a < length (signals s) \<and> \<not> aborted (signals s ! a)
      then run (map snd (listeners (signals s ! a)) @ k)
               (s\<lparr>signals := (signals s)[a := \<lparr>aborted = True, reason = stored_reason r, listeners = []\<rparr>]\<rparr>)
      else run k s)"
| "run (ControllerAbort c r # k) s =
     (if c < length (controllers s) \<and> \<not> disposed (controllers s ! c)
      then run (NativeAbort (controller (controllers s ! c)) r # k) (clearTimeout c s)
      else run k s)"
  by pat_completeness auto

lemma live_update:
  "a < length xs \<Longrightarrow> \<not> aborted (xs ! a) \<Longrightarrow> aborted y \<Longrightarrow> live (xs[a := y]) < live xs"
proof (induction xs arbitrary: a)
  case Nil
  then show ?case by simp
next
  case (Cons x xs)
  then show ?case by (cases a) (auto simp: live_def)
qed

lemma signals_clearTimeout [simp]: "signals (clearTimeout c s) = signals s"
  by (simp add: clearTimeout_def clearTimeout_native_def split: option.splits)

termination run
  by (relation "measures [\<lambda>(k, s). live (signals s), \<lambda>(k, s). sum_list (map weight k)]")
     (auto simp: live_update)

text \<open>\<open>new EnhancedAbortController()\<close>.\<close>

definition new_EnhancedAbortController :: "state \<Rightarrow> addr \<times> state" where
  "new_EnhancedAbortController s =
     (let (a, s1) = new_AbortController s in
      (length (controllers s1),
       s1\<lparr>controllers := controllers s1 @
            [\<lparr>controller = a,
              private_signal = \<lparr>abortSignal = a, private_canBeAborted = True\<rparr>,
              timeoutId = None, disposed = False\<rparr>]\<rparr>))"

definition signal :: "addr \<Rightarrow> state \<Rightarrow> enhanced_signal" where
  "signal c s = private_signal (controllers s ! c)"

definition isAborted :: "addr \<Rightarrow> state \<Rightarrow> bool" where
  "isAborted c s = aborted (signals s ! controller (controllers s ! c))"

definition isDisposed :: "addr \<Rightarrow> state \<Rightarrow> bool" where
  "isDisposed c s = disposed (controllers s ! c)"

definition controller_reason :: "addr \<Rightarrow> state \<Rightarrow> jsval" where
  "controller_reason c s = reason (signals s ! controller (controllers s ! c))"

definition abort :: "addr \<Rightarrow> string option \<Rightarrow> state \<Rightarrow> state" where
  "abort c r s = run [ControllerAbort c r] s"

definition abortAfter :: "addr \<Rightarrow> nat \<Rightarrow> state \<Rightarrow> state" where
  "abortAfter c ms s =
     (if disposed (controllers s ! c) then s
      else let s1 = clearTimeout c s;
               (i, s2) = setTimeout (ControllerAbort c None) ms s1
           in s2\<lparr>controllers := (controllers s2)[c := (controllers s2 ! c)\<lparr>timeoutId := Some i\<rparr>]\<rparr>)"

definition dispose :: "addr \<Rightarrow> state \<Rightarrow> state" where
  "dispose c s =
     (if disposed (controllers s ! c) then s
      else clearTimeout c
             (s\<lparr>controllers := (controllers s)[c := (controllers s ! c)\<lparr>disposed := True\<rparr>]\<rparr>))"

definition tryReset :: "addr \<Rightarrow> state \<Rightarrow> bool \<times> state" where
  "tryReset c s =
     (if disposed (controllers s ! c) then (False, s)
      else let s1 = clearTimeout c s;
               (a, s2) = new_AbortController s1
           in (True,
               s2\<lparr>controllers := (controllers s2)[c := (controllers s2 ! c)
                     \<lparr>controller := a,
                      private_signal := \<lparr>abortSignal = a, private_canBeAborted = True\<rparr>\<rparr>]\<rparr>))"

section \<open>AbortError\<close>

record AbortError =
  error_name :: string
  message :: string

definition new_AbortError :: "string option \<Rightarrow> AbortError" where
  "new_AbortError m =
     \<lparr>error_name = ''AbortError'',
      message = (case m of None \<Rightarrow> ''The operation was aborted.'' | Some x \<Rightarrow> x)\<rparr>"

section \<open>AbortRegistration\<close>

definition new_AbortRegistration :: "unregister_action \<Rightarrow> state \<Rightarrow> addr \<times> state" where
  "new_AbortRegistration f s =
     (length (registrations s),
      s\<lparr>registrations := registrations s @
           [\<lparr>registration_disposed = False, unregisterCallback = Some f\<rparr>]\<rparr>)"

text \<open>What can escape from a call: the library's AbortError, or a value a caller's
  function throws.\<close>

datatype exception = AbortErrorThrown AbortError | CallerThrown nat

text \<open>Calling the function a registration holds: the effects of the function's own
  body, a re-entrant call apart.  Every call is recorded in \<open>action_log\<close>, which
  only serves to count the calls.\<close>

fun invoke :: "unregister_action \<Rightarrow> state \<Rightarrow> state" where
  "invoke (RemoveEventListener a l) s =
     removeEventListener a l (s\<lparr>action_log := action_log s @ [RemoveEventListener a l]\<rparr>)"
| "invoke f s = s\<lparr>action_log := action_log s @ [f]\<rparr>"

text \<open>The two assignments that follow the call in \<open>unregister\<close>:
  \<open>this.unregisterCallback = undefined; this.disposed = true\<close>.\<close>

definition mark_disposed :: "addr \<Rightarrow> state \<Rightarrow> state" where
  "mark_disposed r s =
     s\<lparr>registrations := (registrations s)[r := (registrations s ! r)
          \<lparr>unregisterCallback := None, registration_disposed := True\<rparr>]\<rparr>"

fun reentries :: "unregister_action option \<Rightarrow> nat" where
  "reentries (Some (ReentrantAction n k)) = k"
| "reentries f = 0"

text \<open>
  \<open>AbortRegistration.unregister\<close> on the registration \<open>r\<close> (one that exists): the
  state the call leaves, whether it returns or throws.  The function is called before
  the reference is cleared and before \<open>disposed\<close> is set.  When the function throws,
  the two assignments are not reached.  When it calls \<open>unregister\<close> again, the inner
  call finds the registration as it was (not disposed, the function still there), runs
  it again and returns; then the outer call goes on.
\<close>

function unregister :: "addr \<Rightarrow> state \<Rightarrow> state" where
  "unregister r s =
     (if r < length (registrations s) then
        (case unregisterCallback (registrations s ! r) of
           None \<Rightarrow> s
         | Some f \<Rightarrow>
             if registration_disposed (registrations s ! r) then s
             else (case f of
                     ThrowingAction n \<Rightarrow> invoke f s
                   | ReentrantAction n (Suc k) \<Rightarrow>
                       mark_disposed r
                         (unregister r
                            ((invoke f s)\<lparr>registrations := (registrations s)[r := (registrations s ! r)
                                 \<lparr>unregisterCallback := Some (ReentrantAction n k)\<rparr>]\<rparr>))
                   | _ \<Rightarrow> mark_disposed r (invoke f s)))
      else s)"
  by pat_completeness auto

termination unregister
  by (relation "measure (\<lambda>(r, s). reentries (unregisterCallback (registrations s ! r)))") auto

declare unregister.simps [simp del]

text \<open>A property of the state that neither the function called nor an update of the
  registrations changes is kept by \<open>unregister\<close>.\<close>

lemma unregister_preserves:
  fixes Q :: "state \<Rightarrow> 'a"
  assumes inv: "\<And>f s. Q (invoke f s) = Q s"
    and upd: "\<And>s rs. Q (s\<lparr>registrations := rs\<rparr>) = Q s"
  shows "Q (unregister r s) = Q s"
proof (induction r s rule: unregister.induct)
  case (1 r s)
  have mark: "\<And>s. Q (mark_disposed r s) = Q s"
    by (simp add: mark_disposed_def upd)
  show ?case
  proof (cases "r < length (registrations s) \<and> \<not> registration_disposed (registrations s ! r)")
    case False
    then show ?thesis
      by (subst unregister.simps) (auto split: option.split)
  next
    case True
    show ?thesis
    proof (cases "unregisterCallback (registrations s ! r)")
      case None
      then show ?thesis by (subst unregister.simps) simp
    next
      case (Some f)
      show ?thesis
      proof (cases "\<exists>n k. f = ReentrantAction n (Suc k)")
        case True
        then obtain n k where f: "f = ReentrantAction n (Suc k)" by blast
        let ?s' = "(invoke f s)\<lparr>registrations := (registrations s)[r := (registrations s ! r)
                                 \<lparr>unregisterCallback := Some (ReentrantAction n k)\<rparr>]\<rparr>"
        have "Q (unregister r ?s') = Q ?s'"
          using 1[of f n "Suc k" k] \<open>r < length (registrations s) \<and> \<not> registration_disposed (registrations s ! r)\<close>
            Some f by simp
        moreover have "unregister r s = mark_disposed r (unregister r ?s')"
          using \<open>r < length (registrations s) \<and> \<not> registration_disposed (registrations s ! r)\<close> Some f
          by (subst unregister.simps) (simp del: invoke.simps)
        ultimately show ?thesis by (simp add: mark upd inv del: invoke.simps)
      next
        case False
        then have "unregister r s = mark_disposed r (invoke f s) \<or> unregister r s = invoke f s"
          using \<open>r < length (registrations s) \<and> \<not> registration_disposed (registrations s ! r)\<close> Some
          by (subst unregister.simps, subst unregister.simps)
             (auto simp del: invoke.simps split: unregister_action.split nat.split)
        then show ?thesis by (auto simp: mark inv)
      qed
    qed
  qed
qed

lemma unregister_noop:
  "\<not> r < length (registrations s) \<or> registration_disposed (registrations s ! r)
     \<or> unregisterCallback (registrations s ! r) = None \<Longrightarrow> unregister r s = s"
  by (subst unregister.simps) (auto split: option.split)

lemma unregister_returning:
  assumes "r < length (registrations s)" and "\<not> registration_disposed (registrations s ! r)"
    and "unregisterCallback (registrations s ! r) = Some f"
    and "f = RemoveEventListener a l \<or> f = EmptyAction \<or> f = UserAction n
         \<or> f = ReentrantAction n 0"
  shows "unregister r s = mark_disposed r (invoke f s)"
  using assms by (subst unregister.simps) (auto simp del: invoke.simps)

lemma unregister_throwing:
  assumes "r < length (registrations s)" and "\<not> registration_disposed (registrations s ! r)"
    and "unregisterCallback (registrations s ! r) = Some (ThrowingAction n)"
  shows "unregister r s = invoke (ThrowingAction n) s"
  using assms by (subst unregister.simps) simp

text \<open>What escapes from that call of \<open>unregister\<close>: what the function throws.\<close>

definition unregister_raises :: "addr \<Rightarrow> state \<Rightarrow> exception option" where
  "unregister_raises r s =
     (if r < length (registrations s) \<and> \<not> registration_disposed (registrations s ! r)
      then (case unregisterCallback (registrations s ! r) of
              Some (ThrowingAction n) \<Rightarrow> Some (CallerThrown n)
            | _ \<Rightarrow> None)
      else None)"

definition registration_dispose :: "addr \<Rightarrow> state \<Rightarrow> state" where
  "registration_dispose r s = unregister r s"

definition registration_isDisposed :: "addr \<Rightarrow> state \<Rightarrow> bool" where
  "registration_isDisposed r s = registration_disposed (registrations s ! r)"

section \<open>EnhancedAbortSignal\<close>

definition signal_isAborted :: "enhanced_signal \<Rightarrow> state \<Rightarrow> bool" where
  "signal_isAborted g s = aborted (signals s ! abortSignal g)"

definition signal_reason :: "enhanced_signal \<Rightarrow> state \<Rightarrow> jsval" where
  "signal_reason g s = reason (signals s ! abortSignal g)"

definition canBeAborted :: "enhanced_signal \<Rightarrow> bool" where
  "canBeAborted g = (private_canBeAborted g \<noteq> False)"

definition throwIfAborted :: "enhanced_signal \<Rightarrow> string option \<Rightarrow> state \<Rightarrow> AbortError + unit" where
  "throwIfAborted g customMessage s =
     (if signal_isAborted g s then Inl (new_AbortError customMessage) else Inr ())"

text \<open>\<open>register\<close> with a callback of the model, which returns normally.\<close>

definition register :: "enhanced_signal \<Rightarrow> callback \<Rightarrow> state \<Rightarrow> addr \<times> state" where
  "register g cb s =
     (if signal_isAborted g s then new_AbortRegistration EmptyAction (run [cb] s)
      else let (l, s1) = addEventListener (abortSignal g) cb s
           in new_AbortRegistration (RemoveEventListener (abortSignal g) l) s1)"

text \<open>
  What a caller can hand to \<open>register\<close>: a function that returns normally (a callback
  of the model), or one that throws; \<open>Throws n e\<close> is the caller's callback \<open>n\<close>
  that throws \<open>e\<close> (an AbortError when it calls \<open>throwIfAborted\<close> itself).

  \<open>register\<close> has no \<open>try\<close>: on an aborted signal it calls the callback inline,
  and what the callback throws escapes from \<open>register\<close> before a registration is
  made.  On a live signal the function becomes a listener; the dispatch of the platform
  catches what a listener throws, so as a listener the throwing function is the callback
  \<open>n\<close> whose call is logged.
\<close>

datatype caller_function = Returns callback | Throws nat exception

fun register_any :: "enhanced_signal \<Rightarrow> caller_function \<Rightarrow> state \<Rightarrow> exception + addr \<times> state" where
  "register_any g (Returns cb) s = Inr (register g cb s)"
| "register_any g (Throws n e) s =
     (if signal_isAborted g s then Inl e else Inr (register g (UserCallback n) s))"

definition new_Promise :: "promise \<Rightarrow> state \<Rightarrow> addr \<times> state" where
  "new_Promise v s = (length (promises s), s\<lparr>promises := promises s @ [v]\<rparr>)"

text \<open>The getter \<open>whenAborted\<close>: the executor runs at once (it registers the resolving
  listener), and \<open>Promise.resolve().then(() => registration.unregister())\<close> queues the
  unregistration as a microtask.\<close>

definition whenAborted :: "enhanced_signal \<Rightarrow> state \<Rightarrow> addr \<times> state" where
  "whenAborted g s =
     (if signal_isAborted g s then new_Promise Resolved s
      else let (p, s1) = new_Promise Pending s;
               (r, s2) = register g (Resolve p) s1
           in (p, s2\<lparr>microtasks := microtasks s2 @ [UnregisterJob r]\<rparr>))"

definition signal_none :: "state \<Rightarrow> enhanced_signal \<times> state" where
  "signal_none s =
     (let (a, s1) = new_AbortController s
      in (\<lparr>abortSignal = a, private_canBeAborted = False\<rparr>, s1))"

definition signal_aborted :: "state \<Rightarrow> enhanced_signal \<times> state" where
  "signal_aborted s =
     (let (a, s1) = new_AbortController s
      in (\<lparr>abortSignal = a, private_canBeAborted = True\<rparr>, run [NativeAbort a None] s1))"

definition signal_timeout :: "nat \<Rightarrow> state \<Rightarrow> enhanced_signal \<times> state" where
  "signal_timeout ms s =
     (let (a, s1) = new_AbortController s;
          (i, s2) = setTimeout (NativeAbort a None) ms s1
      in (\<lparr>abortSignal = a, private_canBeAborted = True\<rparr>, s2))"

text \<open>The loop \<open>for (const signal of signals) signal.register(cb)\<close>.\<close>

fun register_all :: "enhanced_signal list \<Rightarrow> callback \<Rightarrow> state \<Rightarrow> state" where
  "register_all [] cb s = s"
| "register_all (g # gs) cb s = register_all gs cb (snd (register g cb s))"

definition signal_any :: "enhanced_signal list \<Rightarrow> state \<Rightarrow> enhanced_signal \<times> state" where
  "signal_any gs s =
     (let (a, s1) = new_AbortController s
      in (\<lparr>abortSignal = a, private_canBeAborted = True\<rparr>,
          register_all gs (NativeAbort a None) s1))"

definition linkSignals :: "enhanced_signal list \<Rightarrow> state \<Rightarrow> addr \<times> state" where
  "linkSignals gs s =
     (let (c, s1) = new_EnhancedAbortController s
      in (c, register_all gs (ControllerAbort c None) s1))"

definition createLinkedController :: "enhanced_signal list \<Rightarrow> state \<Rightarrow> addr \<times> state" where
  "createLinkedController gs s = linkSignals gs s"

definition controller_timeout :: "nat \<Rightarrow> state \<Rightarrow> addr \<times> state" where
  "controller_timeout ms s =
     (let (c, s1) = new_EnhancedAbortController s in (c, abortAfter c ms s1))"

section \<open>The event loop: microtasks and timers\<close>

fun run_job :: "job \<Rightarrow> state \<Rightarrow> state" where
  "run_job (UnregisterJob r) s = unregister r s"

text \<open>The microtask checkpoint at the end of a task: the queued jobs run in order.\<close>

definition run_microtasks :: "state \<Rightarrow> state" where
  "run_microtasks s = fold run_job (microtasks s) (s\<lparr>microtasks := []\<rparr>)"

fun earliest :: "timer list \<Rightarrow> timer option" where
  "earliest [] = None"
| "earliest (t # ts) =
     (case earliest ts of
        None \<Rightarrow> Some t
      | Some u \<Rightarrow> if due u < due t then Some u else Some t)"

text \<open>The next timer to fire up to time \<open>T\<close>: the earliest due, the older one on a tie.\<close>

definition next_timer :: "nat \<Rightarrow> timer list \<Rightarrow> timer option" where
  "next_timer T ts = earliest (filter (\<lambda>t. due t \<le> T) ts)"

lemma earliest_in: "earliest ts = Some t \<Longrightarrow> t \<in> set ts"
  by (induction ts arbitrary: t) (auto split: option.splits if_splits)

lemma next_timer_in: "next_timer T ts = Some t \<Longrightarrow> t \<in> set ts"
  by (auto simp: next_timer_def dest: earliest_in)

lemma timers_clearTimeout_length: "length (timers (clearTimeout c s)) \<le> length (timers s)"
  by (simp add: clearTimeout_def clearTimeout_native_def split: option.splits)

lemma timers_run_length: "length (timers (run k s)) \<le> length (timers s)"
proof (induction k s rule: run.induct)
  case (5 c r k s)
  then show ?case
    using timers_clearTimeout_length[of c s] by (auto simp del: run.simps(4))
qed auto

lemma timers_invoke [simp]: "timers (invoke f s) = timers s"
  by (cases f) (simp_all add: removeEventListener_def)

lemma timers_unregister [simp]: "timers (unregister r s) = timers s"
  by (rule unregister_preserves) simp_all

lemma timers_fold_run_job [simp]: "timers (fold run_job js s) = timers s"
proof (induction js arbitrary: s)
  case Nil
  then show ?case by simp
next
  case (Cons j js)
  then show ?case by (cases j) simp
qed

lemma timers_run_microtasks [simp]: "timers (run_microtasks s) = timers s"
  by (simp add: run_microtasks_def)

text \<open>Time passes up to \<open>T\<close>: each timer that comes due is taken off the queue and its
  callback runs as a task of its own, followed by the microtask checkpoint.\<close>

function advance_to :: "nat \<Rightarrow> state \<Rightarrow> state" where
  "advance_to T s =
     (case next_timer T (timers s) of
        None \<Rightarrow> s\<lparr>now := max (now s) T\<rparr>
      | Some t \<Rightarrow>
          advance_to T
            (run_microtasks
               (run [timer_callback t]
                    (s\<lparr>timers := remove1 t (timers s), now := max (now s) (due t)\<rparr>))))"
  by pat_completeness auto

termination advance_to
proof (relation "measure (\<lambda>(T, s). length (timers s))")
  show "wf (measure (\<lambda>(T, s). length (timers s)))" by simp
next
  fix T :: nat and s :: state and t :: timer
  assume "next_timer T (timers s) = Some t"
  then have "t \<in> set (timers s)" by (rule next_timer_in)
  then have "length (remove1 t (timers s)) < length (timers s)"
    by (simp add: length_remove1) (cases "timers s"; simp)
  moreover have "length (timers (run [timer_callback t]
        (s\<lparr>timers := remove1 t (timers s), now := max (now s) (due t)\<rparr>)))
      \<le> length (remove1 t (timers s))"
    using timers_run_length[of "[timer_callback t]"
        "s\<lparr>timers := remove1 t (timers s), now := max (now s) (due t)\<rparr>"] by simp
  ultimately show "((T, run_microtasks (run [timer_callback t]
        (s\<lparr>timers := remove1 t (timers s), now := max (now s) (due t)\<rparr>))), (T, s))
      \<in> measure (\<lambda>(T, s). length (timers s))"
    by simp
qed

declare advance_to.simps [simp del]

text \<open>The current task ends and \<open>d\<close> milliseconds pass.\<close>

definition sleep :: "nat \<Rightarrow> state \<Rightarrow> state" where
  "sleep d s = advance_to (now s + d) (run_microtasks s)"

section \<open>Sequences of calls\<close>

datatype registration_call = Unregister | Dispose

fun call_registration :: "addr \<Rightarrow> registration_call \<Rightarrow> state \<Rightarrow> state" where
  "call_registration r Unregister s = unregister r s"
| "call_registration r Dispose s = registration_dispose r s"

text \<open>The calls a program can make on the library, and time passing; \<open>exec\<close> gives
  the state a call leaves when it returns, or what escapes from it.  Only
  \<open>throwIfAborted\<close> has a \<open>throw\<close> in its body; \<open>register\<close> and
  \<open>unregister\<close>/\<open>dispose\<close> of a registration call a caller's function with no
  \<open>try\<close> around it; the promise of \<open>whenAborted\<close> has no rejecting path.\<close>

datatype call =
    New_EnhancedAbortController
  | Abort addr "string option"
  | AbortAfter addr nat
  | ControllerDispose addr
  | TryReset addr
  | Register enhanced_signal caller_function
  | WhenAborted enhanced_signal
  | ThrowIfAborted enhanced_signal "string option"
  | RegistrationUnregister addr
  | RegistrationDispose addr
  | SignalNone
  | SignalAborted
  | SignalTimeout nat
  | SignalAny "enhanced_signal list"
  | LinkSignals "enhanced_signal list"
  | ControllerTimeout nat
  | Sleep nat

fun exec :: "call \<Rightarrow> state \<Rightarrow> exception + state" where
  "exec New_EnhancedAbortController s = Inr (snd (new_EnhancedAbortController s))"
| "exec (Abort c r) s = Inr (abort c r s)"
| "exec (AbortAfter c ms) s = Inr (abortAfter c ms s)"
| "exec (ControllerDispose c) s = Inr (dispose c s)"
| "exec (TryReset c) s = Inr (snd (tryReset c s))"
| "exec (Register g f) s =
     (case register_any g f s of Inl e \<Rightarrow> Inl e | Inr (r, s') \<Rightarrow> Inr s')"
| "exec (WhenAborted g) s = Inr (snd (whenAborted g s))"
| "exec (ThrowIfAborted g m) s =
     (case throwIfAborted g m s of Inl e \<Rightarrow> Inl (AbortErrorThrown e) | Inr u \<Rightarrow> Inr s)"
| "exec (RegistrationUnregister r) s =
     (case unregister_raises r s of Some e \<Rightarrow> Inl e | None \<Rightarrow> Inr (unregister r s))"
| "exec (RegistrationDispose r) s =
     (case unregister_raises r s of Some e \<Rightarrow> Inl e | None \<Rightarrow> Inr (registration_dispose r s))"
| "exec SignalNone s = Inr (snd (signal_none s))"
| "exec SignalAborted s = Inr (snd (signal_aborted s))"
| "exec (SignalTimeout ms) s = Inr (snd (signal_timeout ms s))"
| "exec (SignalAny gs) s = Inr (snd (signal_any gs s))"
| "exec (LinkSignals gs) s = Inr (snd (linkSignals gs s))"
| "exec (ControllerTimeout ms) s = Inr (snd (controller_timeout ms s))"
| "exec (Sleep d) s = Inr (sleep d s)"

text \<open>Registering a list of callbacks on one signal, in order.\<close>

fun register_each :: "enhanced_signal \<Rightarrow> callback list \<Rightarrow> state \<Rightarrow> state" where
  "register_each g [] s = s"
| "register_each g (cb # cbs) s = register_each g cbs (snd (register g cb s))"

text \<open>A controller object as the constructor and \<open>tryReset\<close> leave it: it exists, its
  native controller exists, and its EnhancedAbortSignal wraps that controller's signal.\<close>

definition controller_ok :: "addr \<Rightarrow> state \<Rightarrow> bool" where
  "controller_ok c s \<longleftrightarrow>
     c < length (controllers s)
     \<and> controller (controllers s ! c) < length (signals s)
     \<and> abortSignal (private_signal (controllers s ! c)) = controller (controllers s ! c)"



text \<open>The states of that scenario, with the inputs at controllers \<open>m .. m+2\<close> and
  signals \<open>k .. k+2\<close>, and the linked controller at \<open>m+3\<close> with signal \<open>k+3\<close>:
  \<open>fired\<close> tells whether the linked signal has aborted.\<close>

definition linked_pre :: "nat \<Rightarrow> nat \<Rightarrow> nat \<Rightarrow> nat list \<Rightarrow> bool \<Rightarrow> state \<Rightarrow> bool" where
  "linked_pre m k n cs fired \<sigma> \<longleftrightarrow>
     length (controllers \<sigma>) = m + 4 \<and> length (signals \<sigma>) = k + 4
     \<and> (\<forall>i<4. controller (controllers \<sigma> ! (m + i)) = k + i
              \<and> \<not> disposed (controllers \<sigma> ! (m + i)))
     \<and> (\<forall>i<3. map snd (listeners (signals \<sigma> ! (k + i)))
              = (if aborted (signals \<sigma> ! (k + i)) then [] else [ControllerAbort (m + 3) None]))
     \<and> (if fired
         then aborted (signals \<sigma> ! (k + 3)) \<and> reason (signals \<sigma> ! (k + 3)) = DOMAbortError
              \<and> listeners (signals \<sigma> ! (k + 3)) = [] \<and> calls \<sigma> = cs @ [n]
         else \<not> aborted (signals \<sigma> ! (k + 3))
              \<and> map snd (listeners (signals \<sigma> ! (k + 3))) = [UserCallback n]
              \<and> calls \<sigma> = cs)"


text \<open>A program: calls in sequence, stopped by the first error raised.\<close>

fun exec_all :: "call list \<Rightarrow> state \<Rightarrow> exception + state" where
  "exec_all [] s = Inr s"
| "exec_all (k # ks) s = (case exec k s of Inl e \<Rightarrow> Inl e | Inr s' \<Rightarrow> exec_all ks s')"

text \<open>The outstanding deferred-abort timers of a controller, and the invariant that
  relates the timer queue to the controllers: timer handles are distinct and were issued
  before, and a queued \<open>() => this.abort()\<close> belongs to a controller that is not
  disposed and holds that timer's handle in \<open>timeoutId\<close>.\<close>

definition pending :: "addr \<Rightarrow> state \<Rightarrow> timer list" where
  "pending c s = filter (\<lambda>t. timer_callback t = ControllerAbort c None) (timers s)"

definition timer_inv :: "state \<Rightarrow> bool" where
  "timer_inv s \<longleftrightarrow>
     distinct (map timer_id (timers s))
     \<and> (\<forall>t\<in>set (timers s). timer_id t < fresh s
           \<and> (\<forall>c r. timer_callback t = ControllerAbort c r \<longrightarrow>
                 c < length (controllers s) \<and> \<not> disposed (controllers s ! c)
                 \<and> timeoutId (controllers s ! c) = Some (timer_id t)))"

text \<open>A call addresses a controller that exists.\<close>

fun call_ok :: "call \<Rightarrow> state \<Rightarrow> bool" where
  "call_ok (Abort c r) s = (c < length (controllers s))"
| "call_ok (AbortAfter c ms) s = (c < length (controllers s))"
| "call_ok (ControllerDispose c) s = (c < length (controllers s))"
| "call_ok (TryReset c) s = (c < length (controllers s))"
| "call_ok k s = True"

section \<open>What the operations leave unchanged\<close>

lemma clearTimeout_fields [simp]:
  "calls (clearTimeout c s) = calls s"
  "promises (clearTimeout c s) = promises s"
  "registrations (clearTimeout c s) = registrations s"
  "microtasks (clearTimeout c s) = microtasks s"
  "now (clearTimeout c s) = now s"
  "fresh (clearTimeout c s) = fresh s"
  "action_log (clearTimeout c s) = action_log s"
  "length (controllers (clearTimeout c s)) = length (controllers s)"
  by (simp_all add: clearTimeout_def clearTimeout_native_def split: option.splits)

lemma clearTimeout_timers:
  "timers (clearTimeout c s)
     = filter (\<lambda>t. Some (timer_id t) \<noteq> timeoutId (controllers s ! c)) (timers s)"
  by (simp add: clearTimeout_def clearTimeout_native_def split: option.splits)

lemma clearTimeout_controller:
  "c < length (controllers s) \<Longrightarrow>
   controllers (clearTimeout c s) = (controllers s)[c := (controllers s ! c)\<lparr>timeoutId := None\<rparr>]"
  by (auto simp: clearTimeout_def clearTimeout_native_def list_eq_iff_nth_eq nth_list_update
      split: option.splits)

lemma run_frame [simp]:
  "registrations (run k s) = registrations s"
  "microtasks (run k s) = microtasks s"
  "now (run k s) = now s"
  "fresh (run k s) = fresh s"
  "action_log (run k s) = action_log s"
  "length (signals (run k s)) = length (signals s)"
  "length (controllers (run k s)) = length (controllers s)"
  "length (promises (run k s)) = length (promises s)"
proof -
  show "registrations (run k s) = registrations s"
    by (induction k s rule: run.induct) simp_all
  show "microtasks (run k s) = microtasks s"
    by (induction k s rule: run.induct) simp_all
  show "now (run k s) = now s"
    by (induction k s rule: run.induct) simp_all
  show "fresh (run k s) = fresh s"
    by (induction k s rule: run.induct) simp_all
  show "action_log (run k s) = action_log s"
    by (induction k s rule: run.induct) simp_all
  show "length (signals (run k s)) = length (signals s)"
    by (induction k s rule: run.induct) simp_all
  show "length (controllers (run k s)) = length (controllers s)"
    by (induction k s rule: run.induct) simp_all
  show "length (promises (run k s)) = length (promises s)"
    by (induction k s rule: run.induct) simp_all
qed

text \<open>Definitions unfolded when a concrete scenario is evaluated.\<close>

lemmas eval_defs = init_def new_AbortController_def new_EnhancedAbortController_def
  signal_aborted_def register_def new_AbortRegistration_def signal_isAborted_def
  registration_isDisposed_def stored_reason_def abort_def dispose_def clearTimeout_def
  isDisposed_def isAborted_def tryReset_def Let_def

section \<open>What unregistering and the microtask checkpoint leave unchanged\<close>

lemma invoke_frame [simp]:
  "calls (invoke f s) = calls s"
  "controllers (invoke f s) = controllers s"
  "promises (invoke f s) = promises s"
  "now (invoke f s) = now s"
  "fresh (invoke f s) = fresh s"
  "microtasks (invoke f s) = microtasks s"
  "length (signals (invoke f s)) = length (signals s)"
  "aborted (signals (invoke f s) ! x) = aborted (signals s ! x)"
  "reason (signals (invoke f s) ! x) = reason (signals s ! x)"
proof -
  have upd: "\<And>a (xs :: native_signal list) ls.
      aborted (xs[a := (xs ! a)\<lparr>listeners := ls\<rparr>] ! x) = aborted (xs ! x)
      \<and> reason (xs[a := (xs ! a)\<lparr>listeners := ls\<rparr>] ! x) = reason (xs ! x)"
  proof -
    fix a and xs :: "native_signal list" and ls
    show "aborted (xs[a := (xs ! a)\<lparr>listeners := ls\<rparr>] ! x) = aborted (xs ! x)
      \<and> reason (xs[a := (xs ! a)\<lparr>listeners := ls\<rparr>] ! x) = reason (xs ! x)"
      by (cases "a < length xs") (simp_all add: nth_list_update list_update_beyond)
  qed
  show "calls (invoke f s) = calls s" by (cases f) (simp_all add: removeEventListener_def)
  show "controllers (invoke f s) = controllers s" by (cases f) (simp_all add: removeEventListener_def)
  show "promises (invoke f s) = promises s" by (cases f) (simp_all add: removeEventListener_def)
  show "now (invoke f s) = now s" by (cases f) (simp_all add: removeEventListener_def)
  show "fresh (invoke f s) = fresh s" by (cases f) (simp_all add: removeEventListener_def)
  show "microtasks (invoke f s) = microtasks s" by (cases f) (simp_all add: removeEventListener_def)
  show "length (signals (invoke f s)) = length (signals s)"
    by (cases f) (simp_all add: removeEventListener_def)
  show "aborted (signals (invoke f s) ! x) = aborted (signals s ! x)"
    by (cases f) (simp_all add: removeEventListener_def upd)
  show "reason (signals (invoke f s) ! x) = reason (signals s ! x)"
    by (cases f) (simp_all add: removeEventListener_def upd)
qed

lemma unregister_frame [simp]:
  "calls (unregister r s) = calls s"
  "controllers (unregister r s) = controllers s"
  "promises (unregister r s) = promises s"
  "now (unregister r s) = now s"
  "fresh (unregister r s) = fresh s"
  "microtasks (unregister r s) = microtasks s"
  "length (signals (unregister r s)) = length (signals s)"
  "aborted (signals (unregister r s) ! x) = aborted (signals s ! x)"
  "reason (signals (unregister r s) ! x) = reason (signals s ! x)"
proof -
  show "calls (unregister r s) = calls s"
    by (rule unregister_preserves) simp_all
  show "controllers (unregister r s) = controllers s"
    by (rule unregister_preserves) simp_all
  show "promises (unregister r s) = promises s"
    by (rule unregister_preserves) simp_all
  show "now (unregister r s) = now s"
    by (rule unregister_preserves) simp_all
  show "fresh (unregister r s) = fresh s"
    by (rule unregister_preserves) simp_all
  show "microtasks (unregister r s) = microtasks s"
    by (rule unregister_preserves) simp_all
  show "length (signals (unregister r s)) = length (signals s)"
    by (rule unregister_preserves[of "\<lambda>s. length (signals s)"]) simp_all
  show "aborted (signals (unregister r s) ! x) = aborted (signals s ! x)"
    by (rule unregister_preserves[of "\<lambda>s. aborted (signals s ! x)"]) simp_all
  show "reason (signals (unregister r s) ! x) = reason (signals s ! x)"
    by (rule unregister_preserves[of "\<lambda>s. reason (signals s ! x)"]) simp_all
qed

lemma fold_run_job_frame [simp]:
  "calls (fold run_job js s) = calls s"
  "controllers (fold run_job js s) = controllers s"
  "promises (fold run_job js s) = promises s"
  "now (fold run_job js s) = now s"
  "fresh (fold run_job js s) = fresh s"
  "microtasks (fold run_job js s) = microtasks s"
  "length (signals (fold run_job js s)) = length (signals s)"
  "aborted (signals (fold run_job js s) ! x) = aborted (signals s ! x)"
  "reason (signals (fold run_job js s) ! x) = reason (signals s ! x)"
proof -
  have step: "\<And>j s. calls (run_job j s) = calls s \<and> controllers (run_job j s) = controllers s
      \<and> promises (run_job j s) = promises s \<and> now (run_job j s) = now s
      \<and> fresh (run_job j s) = fresh s \<and> microtasks (run_job j s) = microtasks s
      \<and> length (signals (run_job j s)) = length (signals s)
      \<and> aborted (signals (run_job j s) ! x) = aborted (signals s ! x)
      \<and> reason (signals (run_job j s) ! x) = reason (signals s ! x)"
  proof -
    fix j s show "calls (run_job j s) = calls s \<and> controllers (run_job j s) = controllers s
      \<and> promises (run_job j s) = promises s \<and> now (run_job j s) = now s
      \<and> fresh (run_job j s) = fresh s \<and> microtasks (run_job j s) = microtasks s
      \<and> length (signals (run_job j s)) = length (signals s)
      \<and> aborted (signals (run_job j s) ! x) = aborted (signals s ! x)
      \<and> reason (signals (run_job j s) ! x) = reason (signals s ! x)"
      by (cases j) simp
  qed
  show "calls (fold run_job js s) = calls s" by (induction js arbitrary: s) (simp_all add: step)
  show "controllers (fold run_job js s) = controllers s" by (induction js arbitrary: s) (simp_all add: step)
  show "promises (fold run_job js s) = promises s" by (induction js arbitrary: s) (simp_all add: step)
  show "now (fold run_job js s) = now s" by (induction js arbitrary: s) (simp_all add: step)
  show "fresh (fold run_job js s) = fresh s" by (induction js arbitrary: s) (simp_all add: step)
  show "microtasks (fold run_job js s) = microtasks s" by (induction js arbitrary: s) (simp_all add: step)
  show "length (signals (fold run_job js s)) = length (signals s)"
    by (induction js arbitrary: s) (simp_all add: step)
  show "aborted (signals (fold run_job js s) ! x) = aborted (signals s ! x)"
    by (induction js arbitrary: s) (simp_all add: step)
  show "reason (signals (fold run_job js s) ! x) = reason (signals s ! x)"
    by (induction js arbitrary: s) (simp_all add: step)
qed

lemma run_microtasks_frame [simp]:
  "calls (run_microtasks s) = calls s"
  "controllers (run_microtasks s) = controllers s"
  "promises (run_microtasks s) = promises s"
  "now (run_microtasks s) = now s"
  "fresh (run_microtasks s) = fresh s"
  "microtasks (run_microtasks s) = []"
  "length (signals (run_microtasks s)) = length (signals s)"
  "aborted (signals (run_microtasks s) ! x) = aborted (signals s ! x)"
  "reason (signals (run_microtasks s) ! x) = reason (signals s ! x)"
  by (simp_all add: run_microtasks_def)

lemma advance_to_no_timers:
  "timers s = [] \<Longrightarrow> advance_to T s = s\<lparr>now := max (now s) T\<rparr>"
  by (simp add: advance_to.simps[of T s] next_timer_def)

section \<open>Running listeners, registering, aborting\<close>

lemma run_append: "run (k1 @ k2) s = run k2 (run k1 s)"
  by (induction k1 s rule: run.induct) simp_all

lemma run_UserCallbacks: "run (map UserCallback ns) s = s\<lparr>calls := calls s @ ns\<rparr>"
  by (induction ns arbitrary: s) simp_all

lemma register_live:
  assumes "abortSignal g < length (signals s)" and "\<not> aborted (signals s ! abortSignal g)"
  shows "snd (register g cb s) =
     s\<lparr>signals := (signals s)[abortSignal g := (signals s ! abortSignal g)
            \<lparr>listeners := listeners (signals s ! abortSignal g) @ [(fresh s, cb)]\<rparr>],
       fresh := Suc (fresh s),
       registrations := registrations s @
         [\<lparr>registration_disposed = False,
           unregisterCallback = Some (RemoveEventListener (abortSignal g) (fresh s))\<rparr>]\<rparr>"
  using assms
  by (simp add: register_def signal_isAborted_def addEventListener_def new_AbortRegistration_def)

lemma register_each_live:
  assumes "abortSignal g < length (signals s)" and "\<not> aborted (signals s ! abortSignal g)"
  shows "map snd (listeners (signals (register_each g cbs s) ! abortSignal g))
           = map snd (listeners (signals s ! abortSignal g)) @ cbs
       \<and> \<not> aborted (signals (register_each g cbs s) ! abortSignal g)
       \<and> length (signals (register_each g cbs s)) = length (signals s)
       \<and> controllers (register_each g cbs s) = controllers s
       \<and> calls (register_each g cbs s) = calls s
       \<and> timers (register_each g cbs s) = timers s"
  using assms
proof (induction cbs arbitrary: s)
  case Nil
  then show ?case by simp
next
  case (Cons cb cbs)
  let ?s = "snd (register g cb s)"
  have s': "abortSignal g < length (signals ?s)" "\<not> aborted (signals ?s ! abortSignal g)"
    using Cons.prems by (simp_all add: register_live)
  show ?case
    using Cons.IH[OF s'] Cons.prems by (simp add: register_live)
qed


lemma abort_live:
  assumes "controller_ok c s" and "\<not> disposed (controllers s ! c)"
    and "\<not> aborted (signals s ! controller (controllers s ! c))"
  shows "abort c r s =
     run (map snd (listeners (signals s ! controller (controllers s ! c))))
       ((clearTimeout c s)\<lparr>signals := (signals s)[controller (controllers s ! c) :=
            \<lparr>aborted = True, reason = stored_reason r, listeners = []\<rparr>]\<rparr>)"
  using assms
  by (simp add: abort_def controller_ok_def clearTimeout_controller)

lemma abort_aborted:
  assumes "c < length (controllers s)"
    and "aborted (signals s ! controller (controllers s ! c))"
    and "timeoutId (controllers s ! c) = None"
  shows "abort c r s = s"
  using assms by (simp add: abort_def clearTimeout_def)

lemma clearTimeout_controller_fields [simp]:
  "controller (controllers (clearTimeout c' s) ! c) = controller (controllers s ! c)"
  "disposed (controllers (clearTimeout c' s) ! c) = disposed (controllers s ! c)"
  "private_signal (controllers (clearTimeout c' s) ! c) = private_signal (controllers s ! c)"
proof -
  show "controller (controllers (clearTimeout c' s) ! c) = controller (controllers s ! c)"
    by (cases "c' < length (controllers s)")
       (simp_all add: clearTimeout_def clearTimeout_native_def nth_list_update list_update_beyond split: option.split)
  show "disposed (controllers (clearTimeout c' s) ! c) = disposed (controllers s ! c)"
    by (cases "c' < length (controllers s)")
       (simp_all add: clearTimeout_def clearTimeout_native_def nth_list_update list_update_beyond split: option.split)
  show "private_signal (controllers (clearTimeout c' s) ! c) = private_signal (controllers s ! c)"
    by (cases "c' < length (controllers s)")
       (simp_all add: clearTimeout_def clearTimeout_native_def nth_list_update list_update_beyond split: option.split)
qed


lemma run_controller_fields [simp]:
  "controller (controllers (run k s) ! c) = controller (controllers s ! c)"
  "disposed (controllers (run k s) ! c) = disposed (controllers s ! c)"
  "private_signal (controllers (run k s) ! c) = private_signal (controllers s ! c)"
proof -
  show "controller (controllers (run k s) ! c) = controller (controllers s ! c)"
    by (induction k s rule: run.induct) simp_all
  show "disposed (controllers (run k s) ! c) = disposed (controllers s ! c)"
    by (induction k s rule: run.induct) simp_all
  show "private_signal (controllers (run k s) ! c) = private_signal (controllers s ! c)"
    by (induction k s rule: run.induct) simp_all
qed

lemma run_keeps_aborted:
  "aborted (signals s ! x) \<Longrightarrow> aborted (signals (run k s) ! x)"
proof (induction k s rule: run.induct)
  case (4 a r k s)
  then show ?case by (cases "x = a") (auto simp: nth_list_update)
qed simp_all

lemma run_NativeAbort_aborts:
  "a < length (signals s) \<Longrightarrow> aborted (signals (run [NativeAbort a r] s) ! a)"
  using run_keeps_aborted[of _ a]
  by (cases "aborted (signals s ! a)") simp_all

lemma run_ControllerAbort_aborts:
  assumes "c < length (controllers s)" and "\<not> disposed (controllers s ! c)"
    and "controller (controllers s ! c) < length (signals s)"
  shows "aborted (signals (run [ControllerAbort c r] s) ! controller (controllers s ! c))"
proof -
  have "run [ControllerAbort c r] s = run [NativeAbort (controller (controllers s ! c)) r] (clearTimeout c s)"
    using assms by simp
  then show ?thesis
    using run_NativeAbort_aborts[of "controller (controllers s ! c)" "clearTimeout c s" r] assms(3)
    by simp
qed

lemma register_keeps_aborted:
  "aborted (signals s ! x) \<Longrightarrow> aborted (signals (snd (register g cb s)) ! x)"
  by (cases "abortSignal g < length (signals s)")
     (auto simp: register_def addEventListener_def new_AbortRegistration_def nth_list_update
        list_update_beyond run_keeps_aborted simp del: run.simps split: prod.splits)

lemma register_length_signals [simp]:
  "length (signals (snd (register g cb s))) = length (signals s)"
  by (simp add: register_def addEventListener_def new_AbortRegistration_def)

lemma register_controller_fields [simp]:
  "controller (controllers (snd (register g cb s)) ! c) = controller (controllers s ! c)"
  "disposed (controllers (snd (register g cb s)) ! c) = disposed (controllers s ! c)"
  "length (controllers (snd (register g cb s))) = length (controllers s)"
  by (simp_all add: register_def addEventListener_def new_AbortRegistration_def)

lemma register_private_signal [simp]:
  "private_signal (controllers (snd (register g cb s)) ! c) = private_signal (controllers s ! c)"
  by (simp add: register_def addEventListener_def new_AbortRegistration_def)

lemma register_all_controller_fields [simp]:
  "controller (controllers (register_all gs cb s) ! c) = controller (controllers s ! c)"
  "private_signal (controllers (register_all gs cb s) ! c) = private_signal (controllers s ! c)"
  "disposed (controllers (register_all gs cb s) ! c) = disposed (controllers s ! c)"
proof -
  show "controller (controllers (register_all gs cb s) ! c) = controller (controllers s ! c)"
    by (induction gs arbitrary: s) simp_all
  show "private_signal (controllers (register_all gs cb s) ! c) = private_signal (controllers s ! c)"
    by (induction gs arbitrary: s) simp_all
  show "disposed (controllers (register_all gs cb s) ! c) = disposed (controllers s ! c)"
    by (induction gs arbitrary: s) simp_all
qed

lemma fst_new_EnhancedAbortController [simp]:
  "fst (new_EnhancedAbortController s) = length (controllers s)"
  by (simp add: new_EnhancedAbortController_def new_AbortController_def)


section \<open>The timer queue and the controllers' timer handles\<close>

lemma timer_inv_frame:
  assumes "timer_inv s" and "timers s' = timers s" and "fresh s \<le> fresh s'"
    and "length (controllers s) \<le> length (controllers s')"
    and "\<And>c. c < length (controllers s) \<Longrightarrow>
           timeoutId (controllers s' ! c) = timeoutId (controllers s ! c)
           \<and> disposed (controllers s' ! c) = disposed (controllers s ! c)"
  shows "timer_inv s'"
  unfolding timer_inv_def
proof (intro conjI ballI allI impI)
  show "distinct (map timer_id (timers s'))"
    using assms(1,2) by (simp add: timer_inv_def)
next
  fix t assume "t \<in> set (timers s')"
  then have t: "t \<in> set (timers s)" using assms(2) by simp
  then show "timer_id t < fresh s'" using assms(1,3) by (auto simp: timer_inv_def)
  fix c r assume "timer_callback t = ControllerAbort c r"
  then have c: "c < length (controllers s)" "\<not> disposed (controllers s ! c)"
    "timeoutId (controllers s ! c) = Some (timer_id t)"
    using assms(1) t by (auto simp: timer_inv_def)
  show "c < length (controllers s')" using c(1) assms(4) by simp
  show "\<not> disposed (controllers s' ! c)" using c assms(5) by simp
  show "timeoutId (controllers s' ! c) = Some (timer_id t)" using c assms(5) by simp
qed

lemma timer_inv_clearTimeout:
  assumes "timer_inv s"
  shows "timer_inv (clearTimeout c s)"
proof (cases "timeoutId (controllers s ! c)")
  case None
  then show ?thesis using assms by (simp add: clearTimeout_def)
next
  case (Some i)
  have tm: "timers (clearTimeout c s) = filter (\<lambda>t. timer_id t \<noteq> i) (timers s)"
    using Some by (simp add: clearTimeout_def clearTimeout_native_def)
  have cs: "controllers (clearTimeout c s) = (controllers s)[c := (controllers s ! c)\<lparr>timeoutId := None\<rparr>]"
    using Some by (simp add: clearTimeout_def clearTimeout_native_def)
  show ?thesis
    unfolding timer_inv_def
  proof (intro conjI ballI allI impI)
    show "distinct (map timer_id (timers (clearTimeout c s)))"
      using assms by (simp add: tm timer_inv_def distinct_map_filter)
  next
    fix t assume "t \<in> set (timers (clearTimeout c s))"
    then have t: "t \<in> set (timers s)" "timer_id t \<noteq> i" by (simp_all add: tm)
    then show "timer_id t < fresh (clearTimeout c s)" using assms by (auto simp: timer_inv_def)
    fix c' r assume "timer_callback t = ControllerAbort c' r"
    then have c': "c' < length (controllers s)" "\<not> disposed (controllers s ! c')"
      "timeoutId (controllers s ! c') = Some (timer_id t)"
      using assms t(1) by (auto simp: timer_inv_def)
    then have ne: "c' \<noteq> c" using Some t(2) by auto
    show "c' < length (controllers (clearTimeout c s))" using c'(1) by simp
    show "\<not> disposed (controllers (clearTimeout c s) ! c')" using c'(2) by simp
    show "timeoutId (controllers (clearTimeout c s) ! c') = Some (timer_id t)"
      using c'(3) ne by (simp add: cs)
  qed
qed

lemma timer_inv_update [simp]:
  "timer_inv (s\<lparr>calls := x\<rparr>) = timer_inv s"
  "timer_inv (s\<lparr>promises := p\<rparr>) = timer_inv s"
  "timer_inv (s\<lparr>signals := g\<rparr>) = timer_inv s"
  "timer_inv (s\<lparr>registrations := rs\<rparr>) = timer_inv s"
  "timer_inv (s\<lparr>microtasks := js\<rparr>) = timer_inv s"
  "timer_inv (s\<lparr>action_log := al\<rparr>) = timer_inv s"
  "timer_inv (s\<lparr>now := n\<rparr>) = timer_inv s"
  by (simp_all add: timer_inv_def)

lemma timer_inv_run: "timer_inv s \<Longrightarrow> timer_inv (run k s)"
proof (induction k s rule: run.induct)
  case (5 c r k s)
  then show ?case using timer_inv_clearTimeout[of s c] by (simp del: run.simps(4))
qed simp_all

lemma timers_run_subset: "set (timers (run k s)) \<subseteq> set (timers s)"
proof (induction k s rule: run.induct)
  case (5 c r k s)
  have "set (timers (clearTimeout c s)) \<subseteq> set (timers s)"
    by (auto simp: clearTimeout_timers)
  then show ?case using 5 by (auto simp del: run.simps(4))
qed auto

lemma timer_inv_invoke [simp]: "timer_inv (invoke f s) = timer_inv s"
  by (cases f) (simp_all add: removeEventListener_def)

lemma timer_inv_unregister [simp]: "timer_inv (unregister r s) = timer_inv s"
  by (rule unregister_preserves) simp_all

lemma timer_inv_fold_run_job [simp]: "timer_inv (fold run_job js s) = timer_inv s"
proof (induction js arbitrary: s)
  case Nil
  then show ?case by simp
next
  case (Cons j js)
  then show ?case by (cases j) simp
qed

lemma timer_inv_run_microtasks [simp]: "timer_inv (run_microtasks s) = timer_inv s"
  by (simp add: run_microtasks_def)

lemma timer_inv_remove1:
  assumes "timer_inv s"
  shows "timer_inv (s\<lparr>timers := remove1 t (timers s), now := n\<rparr>)"
proof -
  have "distinct (map timer_id (remove1 t (timers s)))"
    using assms by (auto simp: timer_inv_def distinct_map intro: inj_on_diff)
  moreover have "set (remove1 t (timers s)) \<subseteq> set (timers s)"
    by (rule set_remove1_subset)
  ultimately show ?thesis
    using assms by (auto simp: timer_inv_def)
qed

lemma timer_inv_advance_to: "timer_inv s \<Longrightarrow> timer_inv (advance_to T s)"
proof (induction T s rule: advance_to.induct)
  case (1 T s)
  show ?case
  proof (cases "next_timer T (timers s)")
    case None
    then show ?thesis using 1(2) by (simp add: advance_to.simps[of T s])
  next
    case (Some t)
    let ?s = "run_microtasks (run [timer_callback t]
                (s\<lparr>timers := remove1 t (timers s), now := max (now s) (due t)\<rparr>))"
    have "timer_inv ?s"
      using timer_inv_run[OF timer_inv_remove1[OF 1(2)]] by simp
    then have "timer_inv (advance_to T ?s)" using 1(1)[OF Some] by simp
    moreover have "advance_to T s = advance_to T ?s"
      using Some by (simp add: advance_to.simps[of T s])
    ultimately show ?thesis by simp
  qed
qed

lemma timer_inv_sleep: "timer_inv s \<Longrightarrow> timer_inv (sleep d s)"
  by (simp add: sleep_def timer_inv_advance_to)

lemma timer_inv_new_AbortController [simp]:
  "timer_inv (snd (new_AbortController s)) = timer_inv s"
  by (simp add: new_AbortController_def)

lemma timer_inv_new_EnhancedAbortController:
  assumes "timer_inv s"
  shows "timer_inv (snd (new_EnhancedAbortController s))"
proof (rule timer_inv_frame[OF assms])
  show "timers (snd (new_EnhancedAbortController s)) = timers s"
    by (simp add: new_EnhancedAbortController_def new_AbortController_def)
  show "fresh s \<le> fresh (snd (new_EnhancedAbortController s))"
    by (simp add: new_EnhancedAbortController_def new_AbortController_def)
  show "length (controllers s) \<le> length (controllers (snd (new_EnhancedAbortController s)))"
    by (simp add: new_EnhancedAbortController_def new_AbortController_def)
  fix c assume "c < length (controllers s)"
  then show "timeoutId (controllers (snd (new_EnhancedAbortController s)) ! c) = timeoutId (controllers s ! c)
           \<and> disposed (controllers (snd (new_EnhancedAbortController s)) ! c) = disposed (controllers s ! c)"
    by (simp add: new_EnhancedAbortController_def new_AbortController_def nth_append)
qed

lemma register_aborted_eq:
  "signal_isAborted g s \<Longrightarrow>
   snd (register g cb s) =
     (run [cb] s)\<lparr>registrations := registrations s @
        [\<lparr>registration_disposed = False, unregisterCallback = Some EmptyAction\<rparr>]\<rparr>"
  by (simp add: register_def new_AbortRegistration_def del: run.simps)

lemma register_live_eq:
  "\<not> signal_isAborted g s \<Longrightarrow>
   snd (register g cb s) =
     s\<lparr>signals := (signals s)[abortSignal g := (signals s ! abortSignal g)
            \<lparr>listeners := listeners (signals s ! abortSignal g) @ [(fresh s, cb)]\<rparr>],
       fresh := Suc (fresh s),
       registrations := registrations s @
         [\<lparr>registration_disposed = False,
           unregisterCallback = Some (RemoveEventListener (abortSignal g) (fresh s))\<rparr>]\<rparr>"
  by (simp add: register_def addEventListener_def new_AbortRegistration_def)

lemma timer_inv_register:
  assumes "timer_inv s"
  shows "timer_inv (snd (register g cb s))"
proof (cases "signal_isAborted g s")
  case True
  have "timer_inv (run [cb] s)" using assms by (rule timer_inv_run)
  then show ?thesis by (simp only: register_aborted_eq[OF True] timer_inv_update)
next
  case False
  show ?thesis
  proof (rule timer_inv_frame[OF assms])
    show "timers (snd (register g cb s)) = timers s"
      by (simp add: register_live_eq[OF False])
    show "fresh s \<le> fresh (snd (register g cb s))"
      by (simp add: register_live_eq[OF False])
    show "length (controllers s) \<le> length (controllers (snd (register g cb s)))"
      by (simp add: register_live_eq[OF False])
    fix c
    show "timeoutId (controllers (snd (register g cb s)) ! c) = timeoutId (controllers s ! c)
           \<and> disposed (controllers (snd (register g cb s)) ! c) = disposed (controllers s ! c)"
      by (simp add: register_live_eq[OF False])
  qed
qed

lemma timer_inv_register_all: "timer_inv s \<Longrightarrow> timer_inv (register_all gs cb s)"
  by (induction gs arbitrary: s) (simp_all add: timer_inv_register)

lemma timer_inv_whenAborted:
  assumes "timer_inv s"
  shows "timer_inv (snd (whenAborted g s))"
proof (cases "signal_isAborted g s")
  case True
  then show ?thesis using assms by (simp add: whenAborted_def new_Promise_def)
next
  case False
  have "timer_inv (s\<lparr>promises := promises s @ [Pending]\<rparr>)" using assms by simp
  then have "timer_inv (snd (register g (Resolve (length (promises s)))
                 (s\<lparr>promises := promises s @ [Pending]\<rparr>)))"
    by (rule timer_inv_register)
  then show ?thesis
    using False by (simp add: whenAborted_def new_Promise_def case_prod_beta)
qed

lemma timer_inv_add_timer:
  assumes "timer_inv s"
    and "\<And>c r. cb = ControllerAbort c r \<Longrightarrow>
           c < length (controllers s) \<and> \<not> disposed (controllers s ! c)
           \<and> (\<forall>t\<in>set (timers s). \<forall>r'. timer_callback t \<noteq> ControllerAbort c r')"
  shows "timer_inv (s\<lparr>timers := timers s @ [\<lparr>timer_id = fresh s, due = d, timer_callback = cb\<rparr>],
                     fresh := Suc (fresh s),
                     controllers := (case cb of
                        ControllerAbort c r \<Rightarrow>
                          (controllers s)[c := (controllers s ! c)\<lparr>timeoutId := Some (fresh s)\<rparr>]
                      | _ \<Rightarrow> controllers s)\<rparr>)"
  unfolding timer_inv_def
proof (rule conjI[OF _ ballI])
  let ?s' = "s\<lparr>timers := timers s @ [\<lparr>timer_id = fresh s, due = d, timer_callback = cb\<rparr>],
                     fresh := Suc (fresh s),
                     controllers := (case cb of
                        ControllerAbort c r \<Rightarrow>
                          (controllers s)[c := (controllers s ! c)\<lparr>timeoutId := Some (fresh s)\<rparr>]
                      | _ \<Rightarrow> controllers s)\<rparr>"
  have old: "\<And>t. t \<in> set (timers s) \<Longrightarrow> timer_id t < fresh s"
    using assms(1) by (simp add: timer_inv_def)
  have "fresh s \<notin> timer_id ` set (timers s)"
  proof
    assume "fresh s \<in> timer_id ` set (timers s)"
    then obtain x where "x \<in> set (timers s)" "timer_id x = fresh s" by auto
    then show False using old[of x] by simp
  qed
  then show "distinct (map timer_id (timers ?s'))"
    using assms(1) by (simp add: timer_inv_def)
  fix t assume t: "t \<in> set (timers ?s')"
  show "timer_id t < fresh ?s' \<and>
         (\<forall>c r. timer_callback t = ControllerAbort c r \<longrightarrow>
                c < length (controllers ?s') \<and> \<not> disposed (controllers ?s' ! c) \<and>
                timeoutId (controllers ?s' ! c) = Some (timer_id t))"
  proof (cases "t \<in> set (timers s)")
    case True
    have lt: "timer_id t < fresh ?s'" using old[OF True] by simp
    have "c < length (controllers ?s') \<and> \<not> disposed (controllers ?s' ! c) \<and>
                timeoutId (controllers ?s' ! c) = Some (timer_id t)"
      if cb: "timer_callback t = ControllerAbort c r" for c r
    proof -
      have c: "c < length (controllers s)" "\<not> disposed (controllers s ! c)"
        "timeoutId (controllers s ! c) = Some (timer_id t)"
        using assms(1) True cb by (auto simp: timer_inv_def)
      show ?thesis
      proof (cases cb)
        case (ControllerAbort c' r')
        then have "c' \<noteq> c" using assms(2)[OF ControllerAbort] True cb by auto
        then show ?thesis using c ControllerAbort by simp
      qed (use c in simp_all)
    qed
    then show ?thesis using lt by blast
  next
    case False
    then have teq: "t = \<lparr>timer_id = fresh s, due = d, timer_callback = cb\<rparr>" using t by simp
    have "c < length (controllers ?s') \<and> \<not> disposed (controllers ?s' ! c) \<and>
                timeoutId (controllers ?s' ! c) = Some (timer_id t)"
      if cb: "timer_callback t = ControllerAbort c r" for c r
    proof -
      have cbe: "cb = ControllerAbort c r" using cb teq by simp
      then show ?thesis using assms(2)[OF cbe] teq by simp
    qed
    moreover have "timer_id t < fresh ?s'" using teq by simp
    ultimately show ?thesis by blast
  qed
qed

lemma no_timer_after_clearTimeout:
  assumes "timer_inv s" and "c < length (controllers s)" and "t \<in> set (timers (clearTimeout c s))"
  shows "timer_callback t \<noteq> ControllerAbort c r"
proof
  assume cb: "timer_callback t = ControllerAbort c r"
  have "timer_inv (clearTimeout c s)" using assms(1) by (rule timer_inv_clearTimeout)
  then have "timeoutId (controllers (clearTimeout c s) ! c) = Some (timer_id t)"
    using assms(3) cb by (auto simp: timer_inv_def)
  then show False using assms(2) by (simp add: clearTimeout_controller)
qed

lemma abortAfter_live:
  assumes "\<not> disposed (controllers s ! c)"
  shows "abortAfter c ms s =
     (clearTimeout c s)\<lparr>timers := timers (clearTimeout c s)
           @ [\<lparr>timer_id = fresh s, due = now s + timer_delay ms, timer_callback = ControllerAbort c None\<rparr>],
        fresh := Suc (fresh s),
        controllers := (controllers (clearTimeout c s))
           [c := (controllers (clearTimeout c s) ! c)\<lparr>timeoutId := Some (fresh s)\<rparr>]\<rparr>"
  using assms by (simp add: abortAfter_def setTimeout_def Let_def)

lemma timer_inv_abortAfter:
  assumes "timer_inv s" and "c < length (controllers s)"
  shows "timer_inv (abortAfter c ms s)"
proof (cases "disposed (controllers s ! c)")
  case True
  then show ?thesis using assms by (simp add: abortAfter_def)
next
  case False
  let ?s1 = "clearTimeout c s"
  have inv1: "timer_inv ?s1" using assms(1) by (rule timer_inv_clearTimeout)
  have "timer_inv (?s1\<lparr>timers := timers ?s1
           @ [\<lparr>timer_id = fresh ?s1, due = now s + timer_delay ms, timer_callback = ControllerAbort c None\<rparr>],
        fresh := Suc (fresh ?s1),
        controllers := (case ControllerAbort c None of
             ControllerAbort c r \<Rightarrow>
               (controllers ?s1)[c := (controllers ?s1 ! c)\<lparr>timeoutId := Some (fresh ?s1)\<rparr>]
           | _ \<Rightarrow> controllers ?s1)\<rparr>)"
  proof (rule timer_inv_add_timer[OF inv1])
    fix c' r assume "ControllerAbort c None = ControllerAbort c' r"
    then have "c' = c" by simp
    then show "c' < length (controllers ?s1) \<and> \<not> disposed (controllers ?s1 ! c')
           \<and> (\<forall>t\<in>set (timers ?s1). \<forall>r'. timer_callback t \<noteq> ControllerAbort c' r')"
      using assms(2) False no_timer_after_clearTimeout[OF assms] by simp
  qed
  then show ?thesis by (simp add: abortAfter_live[OF False])
qed

lemma timer_inv_signal_timeout:
  assumes "timer_inv s"
  shows "timer_inv (snd (signal_timeout ms s))"
proof -
  let ?s1 = "snd (new_AbortController s)"
  have inv1: "timer_inv ?s1" using assms by simp
  have "timer_inv (?s1\<lparr>timers := timers ?s1
           @ [\<lparr>timer_id = fresh ?s1, due = now s + timer_delay ms,
               timer_callback = NativeAbort (length (signals s)) None\<rparr>],
        fresh := Suc (fresh ?s1),
        controllers := (case NativeAbort (length (signals s)) None of
             ControllerAbort c r \<Rightarrow>
               (controllers ?s1)[c := (controllers ?s1 ! c)\<lparr>timeoutId := Some (fresh ?s1)\<rparr>]
           | _ \<Rightarrow> controllers ?s1)\<rparr>)"
    by (rule timer_inv_add_timer[OF inv1]) simp
  then show ?thesis
    by (simp add: signal_timeout_def setTimeout_def new_AbortController_def)
qed

lemma timer_inv_controller_timeout:
  assumes "timer_inv s"
  shows "timer_inv (snd (controller_timeout ms s))"
proof -
  have "timer_inv (abortAfter (length (controllers s)) ms (snd (new_EnhancedAbortController s)))"
    by (rule timer_inv_abortAfter[OF timer_inv_new_EnhancedAbortController[OF assms]])
       (simp add: new_EnhancedAbortController_def new_AbortController_def)
  then show ?thesis
    by (simp add: controller_timeout_def case_prod_beta new_EnhancedAbortController_def
        new_AbortController_def)
qed

lemma dispose_live:
  assumes "\<not> disposed (controllers s ! c)" and "c < length (controllers s)"
  shows "dispose c s =
     (clearTimeout c s)\<lparr>controllers := (controllers (clearTimeout c s))
           [c := (controllers (clearTimeout c s) ! c)\<lparr>disposed := True\<rparr>]\<rparr>"
  using assms
  by (cases "controllers s ! c")
     (simp add: dispose_def clearTimeout_def clearTimeout_native_def split: option.split)

lemma timer_inv_eqI:
  "timers s' = timers s \<Longrightarrow> fresh s' = fresh s \<Longrightarrow> controllers s' = controllers s
   \<Longrightarrow> timer_inv s' = timer_inv s"
  by (simp add: timer_inv_def)

lemma timer_inv_mark:
  assumes "timer_inv s"
    and "\<And>t r. t \<in> set (timers s) \<Longrightarrow> timer_callback t \<noteq> ControllerAbort c r"
    and "timeoutId x = timeoutId (controllers s ! c)"
  shows "timer_inv (s\<lparr>controllers := (controllers s)[c := x]\<rparr>)"
  unfolding timer_inv_def
proof (rule conjI[OF _ ballI])
  let ?s' = "s\<lparr>controllers := (controllers s)[c := x]\<rparr>"
  show "distinct (map timer_id (timers ?s'))" using assms(1) by (simp add: timer_inv_def)
  fix t assume "t \<in> set (timers ?s')"
  then have t: "t \<in> set (timers s)" by simp
  have "c' < length (controllers ?s') \<and> \<not> disposed (controllers ?s' ! c') \<and>
                timeoutId (controllers ?s' ! c') = Some (timer_id t)"
    if cb: "timer_callback t = ControllerAbort c' r" for c' r
  proof -
    have "c' \<noteq> c" using assms(2)[OF t] cb by auto
    then show ?thesis using assms(1) t cb by (auto simp: timer_inv_def)
  qed
  moreover have "timer_id t < fresh ?s'" using assms(1) t by (simp add: timer_inv_def)
  ultimately show "timer_id t < fresh ?s' \<and>
         (\<forall>c r. timer_callback t = ControllerAbort c r \<longrightarrow>
                c < length (controllers ?s') \<and> \<not> disposed (controllers ?s' ! c) \<and>
                timeoutId (controllers ?s' ! c) = Some (timer_id t))"
    by blast
qed

lemma timer_inv_dispose:
  assumes "timer_inv s" and "c < length (controllers s)"
  shows "timer_inv (dispose c s)"
proof (cases "disposed (controllers s ! c)")
  case True
  then show ?thesis using assms by (simp add: dispose_def)
next
  case False
  have "timer_inv ((clearTimeout c s)\<lparr>controllers := (controllers (clearTimeout c s))
           [c := (controllers (clearTimeout c s) ! c)\<lparr>disposed := True\<rparr>]\<rparr>)"
    by (rule timer_inv_mark[OF timer_inv_clearTimeout[OF assms(1)]])
       (use no_timer_after_clearTimeout[OF assms] in simp_all)
  then show ?thesis by (simp only: dispose_live[OF False assms(2)])
qed

lemma tryReset_live:
  assumes "\<not> disposed (controllers s ! c)"
  shows "snd (tryReset c s) =
     (clearTimeout c s)\<lparr>signals := signals s @ [\<lparr>aborted = False, reason = Undefined, listeners = []\<rparr>],
        controllers := (controllers (clearTimeout c s))
           [c := (controllers (clearTimeout c s) ! c)
               \<lparr>controller := length (signals s),
                private_signal := \<lparr>abortSignal = length (signals s), private_canBeAborted = True\<rparr>\<rparr>]\<rparr>"
  using assms by (simp add: tryReset_def new_AbortController_def Let_def)

lemma timer_inv_tryReset:
  assumes "timer_inv s" and "c < length (controllers s)"
  shows "timer_inv (snd (tryReset c s))"
proof (cases "disposed (controllers s ! c)")
  case True
  then show ?thesis using assms by (simp add: tryReset_def)
next
  case False
  have "timer_inv ((clearTimeout c s)\<lparr>controllers := (controllers (clearTimeout c s))
           [c := (controllers (clearTimeout c s) ! c)
               \<lparr>controller := length (signals s),
                private_signal := \<lparr>abortSignal = length (signals s), private_canBeAborted = True\<rparr>\<rparr>]\<rparr>)"
    by (rule timer_inv_mark[OF timer_inv_clearTimeout[OF assms(1)]])
       (use no_timer_after_clearTimeout[OF assms] in simp_all)
  moreover have "timer_inv (snd (tryReset c s)) =
      timer_inv ((clearTimeout c s)\<lparr>controllers := (controllers (clearTimeout c s))
           [c := (controllers (clearTimeout c s) ! c)
               \<lparr>controller := length (signals s),
                private_signal := \<lparr>abortSignal = length (signals s), private_canBeAborted = True\<rparr>\<rparr>]\<rparr>)"
    by (rule timer_inv_eqI) (simp_all add: tryReset_live[OF False])
  ultimately show ?thesis by simp
qed

lemma timer_inv_abort: "timer_inv s \<Longrightarrow> timer_inv (abort c r s)"
  unfolding abort_def by (rule timer_inv_run)

lemma timer_inv_signal_any:
  assumes "timer_inv s"
  shows "timer_inv (snd (signal_any gs s))"
proof -
  have "timer_inv (register_all gs (NativeAbort (length (signals s)) None) (snd (new_AbortController s)))"
    using assms by (intro timer_inv_register_all) simp
  then show ?thesis by (simp add: signal_any_def new_AbortController_def)
qed

lemma timer_inv_linkSignals:
  assumes "timer_inv s"
  shows "timer_inv (snd (linkSignals gs s))"
proof -
  have "timer_inv (register_all gs (ControllerAbort (length (controllers s)) None)
           (snd (new_EnhancedAbortController s)))"
    using assms by (intro timer_inv_register_all timer_inv_new_EnhancedAbortController)
  then show ?thesis by (simp add: linkSignals_def case_prod_beta)
qed

lemma timer_inv_signal_aborted:
  assumes "timer_inv s"
  shows "timer_inv (snd (signal_aborted s))"
proof -
  have "timer_inv (run [NativeAbort (length (signals s)) None] (snd (new_AbortController s)))"
    using assms by (intro timer_inv_run) simp
  then show ?thesis by (simp add: signal_aborted_def new_AbortController_def del: run.simps)
qed

lemma timer_inv_register_any:
  assumes "timer_inv s" and "register_any g f s = Inr (r, s')"
  shows "timer_inv s'"
proof (cases f)
  case (Returns cb)
  then have "s' = snd (register g cb s)" using assms(2) by auto
  then show ?thesis using timer_inv_register[OF assms(1)] by simp
next
  case (Throws n e)
  then have "s' = snd (register g (UserCallback n) s)"
    using assms(2) by (auto split: if_splits)
  then show ?thesis using timer_inv_register[OF assms(1)] by simp
qed

lemma timer_inv_exec:
  assumes "timer_inv s" and "call_ok k s" and "exec k s = Inr s'"
  shows "timer_inv s'"
proof (cases k)
  case (ThrowIfAborted g m)
  then show ?thesis using assms by (auto split: sum.splits)
next
  case SignalNone
  then show ?thesis using assms by (auto simp: signal_none_def new_AbortController_def)
next
  case (Register g f)
  then show ?thesis
    using assms timer_inv_register_any[OF assms(1)]
    by (auto split: sum.splits prod.splits)
next
  case (RegistrationUnregister r)
  then show ?thesis using assms by (auto split: option.splits)
next
  case (RegistrationDispose r)
  then show ?thesis using assms by (auto simp: registration_dispose_def split: option.splits)
qed (use assms in \<open>auto simp: timer_inv_abort timer_inv_abortAfter timer_inv_dispose
      timer_inv_tryReset timer_inv_whenAborted
      timer_inv_new_EnhancedAbortController timer_inv_signal_aborted timer_inv_signal_timeout
      timer_inv_signal_any timer_inv_linkSignals timer_inv_controller_timeout timer_inv_sleep\<close>)

lemma timer_inv_init: "timer_inv init"
  by (simp add: timer_inv_def init_def)

lemma distinct_same_key:
  assumes "distinct (map f xs)" and "\<forall>x\<in>set xs. f x = k"
  shows "length xs \<le> 1"
proof (cases xs)
  case Nil
  then show ?thesis by simp
next
  case (Cons x ys)
  show ?thesis
  proof (cases ys)
    case Nil
    then show ?thesis using Cons by simp
  next
    case (Cons y zs)
    then have "f x = f y" using assms(2) \<open>xs = x # ys\<close> by simp
    then show ?thesis using assms(1) \<open>xs = x # ys\<close> Cons by simp
  qed
qed

lemma pending_at_most_one:
  assumes "timer_inv s"
  shows "length (pending c s) \<le> 1"
proof (cases "timeoutId (controllers s ! c)")
  case None
  then have "pending c s = []"
    using assms by (auto simp: pending_def timer_inv_def filter_empty_conv)
  then show ?thesis by simp
next
  case (Some i)
  have "distinct (map timer_id (pending c s))"
    using assms by (simp add: pending_def timer_inv_def distinct_map_filter)
  moreover have "\<forall>t\<in>set (pending c s). timer_id t = i"
    using assms Some by (auto simp: pending_def timer_inv_def)
  ultimately show ?thesis by (rule distinct_same_key)
qed

lemma pending_clearTimeout:
  assumes "timer_inv s" and "c < length (controllers s)"
  shows "pending c (clearTimeout c s) = []"
  using no_timer_after_clearTimeout[OF assms]
  by (auto simp: pending_def filter_empty_conv)

lemma pending_run:
  "pending c s = [] \<Longrightarrow> pending c (run k s) = []"
  using timers_run_subset[of k s] by (auto simp: pending_def filter_empty_conv)

lemma pending_disposed:
  assumes "timer_inv s" and "disposed (controllers s ! c)"
  shows "pending c s = []"
  using assms by (auto simp: pending_def timer_inv_def filter_empty_conv)

lemma pending_abort:
  assumes "timer_inv s" and "c < length (controllers s)"
  shows "pending c (abort c r s) = []"
proof (cases "disposed (controllers s ! c)")
  case True
  then show ?thesis using pending_disposed[OF assms(1) True] by (simp add: abort_def)
next
  case False
  have eq: "abort c r s = run [NativeAbort (controller (controllers s ! c)) r] (clearTimeout c s)"
    using False assms(2) by (simp add: abort_def del: run.simps(4))
  show ?thesis unfolding eq by (rule pending_run[OF pending_clearTimeout[OF assms]])
qed

lemma pending_dispose:
  assumes "timer_inv s" and "c < length (controllers s)"
  shows "pending c (dispose c s) = []"
proof (cases "disposed (controllers s ! c)")
  case True
  then show ?thesis using pending_disposed[OF assms(1) True] by (simp add: dispose_def)
next
  case False
  show ?thesis
    using pending_clearTimeout[OF assms]
    by (simp add: dispose_live[OF False assms(2)] pending_def)
qed

lemma pending_abortAfter:
  assumes "timer_inv s" and "c < length (controllers s)" and "\<not> disposed (controllers s ! c)"
  shows "pending c (abortAfter c ms s)
     = [\<lparr>timer_id = fresh s, due = now s + timer_delay ms, timer_callback = ControllerAbort c None\<rparr>]"
  using pending_clearTimeout[OF assms(1,2)]
  by (simp add: abortAfter_live[OF assms(3)] pending_def)

lemma abortAfter_frame:
  "signals (abortAfter c ms s) = signals s"
  "calls (abortAfter c ms s) = calls s"
  "now (abortAfter c ms s) = now s"
  "microtasks (abortAfter c ms s) = microtasks s"
  "length (controllers (abortAfter c ms s)) = length (controllers s)"
  "controller (controllers (abortAfter c ms s) ! c') = controller (controllers s ! c')"
  "disposed (controllers (abortAfter c ms s) ! c') = disposed (controllers s ! c')"
proof -
  show "signals (abortAfter c ms s) = signals s"
    by (simp add: abortAfter_def setTimeout_def Let_def)
  show "calls (abortAfter c ms s) = calls s"
    by (simp add: abortAfter_def setTimeout_def Let_def)
  show "now (abortAfter c ms s) = now s"
    by (simp add: abortAfter_def setTimeout_def Let_def)
  show "microtasks (abortAfter c ms s) = microtasks s"
    by (simp add: abortAfter_def setTimeout_def Let_def)
  show "length (controllers (abortAfter c ms s)) = length (controllers s)"
    by (simp add: abortAfter_def setTimeout_def Let_def)
  show "controller (controllers (abortAfter c ms s) ! c') = controller (controllers s ! c')"
    by (cases "c < length (controllers s)")
       (simp_all add: abortAfter_def setTimeout_def Let_def nth_list_update list_update_beyond)
  show "disposed (controllers (abortAfter c ms s) ! c') = disposed (controllers s ! c')"
    by (cases "c < length (controllers s)")
       (simp_all add: abortAfter_def setTimeout_def Let_def nth_list_update list_update_beyond)
qed

lemma abortAfter_timers:
  assumes "\<not> disposed (controllers s ! c)" and "c < length (controllers s)"
  shows "timers (abortAfter c ms s)
      = filter (\<lambda>t. Some (timer_id t) \<noteq> timeoutId (controllers s ! c)) (timers s)
        @ [\<lparr>timer_id = fresh s, due = now s + timer_delay ms, timer_callback = ControllerAbort c None\<rparr>]"
    and "timeoutId (controllers (abortAfter c ms s) ! c) = Some (fresh s)"
    and "fresh (abortAfter c ms s) = Suc (fresh s)"
  using assms by (simp_all add: abortAfter_live clearTimeout_timers)


section \<open>The first abort fires every listener once\<close>

text \<open>
  C1.  A controller that is neither disposed nor aborted has the callbacks \<open>ms\<close> on its
  signal, and the callbacks \<open>ns\<close> are registered on it in order.  The first \<open>abort\<close>
  then calls every one of them once, in registration order, before it returns (the log
  of calls grows by exactly \<open>ms @ ns\<close>); the signal is aborted, keeps no listener,
  and stores the first call's reason (the platform's default error when the call gave
  none).  A second \<open>abort\<close>, with any reason, leaves the whole state unchanged: no
  listener runs again and the stored reason stays the first one.
\<close>

theorem first_abort_fires_once:
  assumes "controller_ok c s" and "\<not> isDisposed c s" and "\<not> isAborted c s"
    and "map snd (listeners (signals s ! controller (controllers s ! c))) = map UserCallback ms"
  shows "calls (abort c r1 (register_each (signal c s) (map UserCallback ns) s)) = calls s @ ms @ ns
       \<and> isAborted c (abort c r1 (register_each (signal c s) (map UserCallback ns) s))
       \<and> controller_reason c (abort c r1 (register_each (signal c s) (map UserCallback ns) s))
           = (case r1 of Some v \<Rightarrow> JString v | None \<Rightarrow> DOMAbortError)
       \<and> listeners (signals (abort c r1 (register_each (signal c s) (map UserCallback ns) s))
            ! controller (controllers s ! c)) = []
       \<and> abort c r2 (abort c r1 (register_each (signal c s) (map UserCallback ns) s))
           = abort c r1 (register_each (signal c s) (map UserCallback ns) s)"
proof -
  let ?a = "controller (controllers s ! c)"
  let ?g = "signal c s"
  let ?s1 = "register_each ?g (map UserCallback ns) s"
  have g: "abortSignal ?g = ?a" and a: "?a < length (signals s)" and c: "c < length (controllers s)"
    using assms(1) by (simp_all add: controller_ok_def signal_def)
  have na: "\<not> aborted (signals s ! ?a)" using assms(3) by (simp add: isAborted_def)
  have nd: "\<not> disposed (controllers s ! c)" using assms(2) by (simp add: isDisposed_def)
  from register_each_live[of ?g s "map UserCallback ns"] g a na
  have l1: "map snd (listeners (signals ?s1 ! ?a)) = map UserCallback (ms @ ns)"
    and na1: "\<not> aborted (signals ?s1 ! ?a)"
    and len1: "length (signals ?s1) = length (signals s)"
    and c1: "controllers ?s1 = controllers s"
    and calls1: "calls ?s1 = calls s"
    using assms(4) by simp_all
  have ok1: "controller_ok c ?s1"
    using assms(1) by (simp add: controller_ok_def c1 len1)
  let ?s2 = "(clearTimeout c ?s1)\<lparr>signals := (signals ?s1)[?a :=
            \<lparr>aborted = True, reason = stored_reason r1, listeners = []\<rparr>],
            calls := calls s @ ms @ ns\<rparr>"
  let ?X = "(clearTimeout c ?s1)\<lparr>signals := (signals ?s1)[?a :=
            \<lparr>aborted = True, reason = stored_reason r1, listeners = []\<rparr>]\<rparr>"
  have "abort c r1 ?s1 = run (map snd (listeners (signals ?s1 ! ?a))) ?X"
    using abort_live[OF ok1, of r1] nd na1 by (simp add: c1)
  also have "\<dots> = run (map UserCallback (ms @ ns)) ?X"
    by (simp only: l1)
  also have "\<dots> = ?X\<lparr>calls := calls ?X @ (ms @ ns)\<rparr>"
    by (rule run_UserCallbacks)
  also have "\<dots> = ?s2"
    by (simp add: calls1)
  finally have ab: "abort c r1 ?s1 = ?s2" .
  have c2: "controllers (clearTimeout c ?s1)
              = (controllers s)[c := (controllers s ! c)\<lparr>timeoutId := None\<rparr>]"
    using clearTimeout_controller[of c ?s1] c by (simp add: c1)
  have "abort c r2 ?s2 = ?s2"
  proof (rule abort_aborted)
    show "c < length (controllers ?s2)" using c by (simp add: c1)
    show "aborted (signals ?s2 ! controller (controllers ?s2 ! c))"
      using c a by (simp add: c2 len1)
    show "timeoutId (controllers ?s2 ! c) = None"
      using c by (simp add: c2)
  qed
  moreover have "calls ?s2 = calls s @ ms @ ns" by simp
  moreover have "isAborted c ?s2"
    using c a by (simp add: isAborted_def c2 len1)
  moreover have "controller_reason c ?s2 = (case r1 of Some v \<Rightarrow> JString v | None \<Rightarrow> DOMAbortError)"
    using c a by (simp add: controller_reason_def c2 len1 stored_reason_def)
  moreover have "listeners (signals ?s2 ! ?a) = []"
    using a by (simp add: len1)
  ultimately show ?thesis by (simp only: ab simp_thms)
qed

theorem first_abort_fires_once_witness:
  "calls (abort 0 (Some ''second'') (abort 0 (Some ''first'')
      (register_each (signal 0 (snd (new_EnhancedAbortController init)))
         (map UserCallback [1, 2, 3]) (snd (new_EnhancedAbortController init))))) = [1, 2, 3]
   \<and> controller_reason 0 (abort 0 (Some ''second'') (abort 0 (Some ''first'')
      (register_each (signal 0 (snd (new_EnhancedAbortController init)))
         (map UserCallback [1, 2, 3]) (snd (new_EnhancedAbortController init))))) = JString ''first''"
proof -
  let ?s = "snd (new_EnhancedAbortController init)"
  have a: "controller_ok 0 ?s" and b: "\<not> isDisposed 0 ?s" and c: "\<not> isAborted 0 ?s"
    and d: "map snd (listeners (signals ?s ! controller (controllers ?s ! 0))) = map UserCallback []"
    and e: "calls ?s = []"
    by (simp_all add: controller_ok_def eval_defs)
  from first_abort_fires_once[OF a b c d, of "Some ''first''" "[1, 2, 3]" "Some ''second''"]
  show ?thesis by (simp add: e)
qed

section \<open>register on an aborted signal\<close>

text \<open>
  C2 (as the code has it).  On a signal that is already aborted, \<open>register\<close> runs the
  callback once, synchronously, before it constructs and returns the registration (a
  caller's callback \<open>n\<close> is the one new entry of the log of calls).  The registration
  returned is not disposed: it holds the empty function, and \<open>unregister\<close> on it
  calls that function and sets the registration's own two fields, changing nothing else.
\<close>

theorem register_on_aborted:
  assumes "signal_isAborted g s"
  shows "register g cb s = new_AbortRegistration EmptyAction (run [cb] s)
       \<and> calls (snd (register g (UserCallback n) s)) = calls s @ [n]
       \<and> \<not> registration_isDisposed (fst (register g cb s)) (snd (register g cb s))
       \<and> unregisterCallback (registrations (snd (register g cb s)) ! fst (register g cb s))
           = Some EmptyAction
       \<and> unregister (fst (register g cb s)) (snd (register g cb s))
           = (snd (register g cb s))
               \<lparr>registrations := registrations s
                    @ [\<lparr>registration_disposed = True, unregisterCallback = None\<rparr>],
                action_log := action_log s @ [EmptyAction]\<rparr>"
proof -
  let ?r = "fst (register g cb s)" and ?s = "snd (register g cb s)"
  have reg: "register g cb s = new_AbortRegistration EmptyAction (run [cb] s)"
    using assms by (simp add: register_def)
  have r: "?r < length (registrations ?s)"
    and d: "\<not> registration_disposed (registrations ?s ! ?r)"
    and f: "unregisterCallback (registrations ?s ! ?r) = Some EmptyAction"
    by (simp_all add: reg new_AbortRegistration_def)
  have "unregister ?r ?s = mark_disposed ?r (invoke EmptyAction ?s)"
    using unregister_returning[OF r d f] by simp
  then have "unregister ?r ?s
           = ?s\<lparr>registrations := registrations s
                    @ [\<lparr>registration_disposed = True, unregisterCallback = None\<rparr>],
                action_log := action_log s @ [EmptyAction]\<rparr>"
    by (simp add: reg new_AbortRegistration_def mark_disposed_def)
  moreover have "calls (snd (register g (UserCallback n) s)) = calls s @ [n]"
    using assms by (simp add: register_def new_AbortRegistration_def)
  ultimately show ?thesis
    using reg d f by (simp add: registration_isDisposed_def)
qed

theorem register_on_aborted_witness:
  "signal_isAborted (fst (signal_aborted init)) (snd (signal_aborted init))
   \<and> calls (snd (register (fst (signal_aborted init)) (UserCallback 1) (snd (signal_aborted init))))
      = [1]"
proof -
  have a: "signal_isAborted (fst (signal_aborted init)) (snd (signal_aborted init))"
    by (simp add: eval_defs)
  have b: "calls (snd (signal_aborted init)) = []"
    by (simp add: eval_defs)
  have "calls (snd (register (fst (signal_aborted init)) (UserCallback 1) (snd (signal_aborted init))))
      = calls (snd (signal_aborted init)) @ [1]"
    using register_on_aborted[OF a, of "UserCallback 1" 1] by blast
  then show ?thesis using a by (simp only: b append_Nil simp_thms)
qed

text \<open>The claim as the specification states it fails: the registration returned for an
  aborted signal reports \<open>isDisposed = false\<close>.\<close>

theorem register_on_aborted_counterexample:
  "\<not> registration_isDisposed
       (fst (register (fst (signal_aborted init)) (UserCallback 1) (snd (signal_aborted init))))
       (snd (register (fst (signal_aborted init)) (UserCallback 1) (snd (signal_aborted init))))"
  by (simp add: eval_defs)

section \<open>whenAborted\<close>

text \<open>Definitions unfolded when a scenario with promises and time is evaluated.\<close>

lemmas eval_loop_defs = eval_defs whenAborted_def new_Promise_def signal_def
  addEventListener_def run_microtasks_def unregister.simps mark_disposed_def
  removeEventListener_def sleep_def next_timer_def advance_to.simps timer_delay_def
  TIMEOUT_MAX_def

text \<open>
  C3 (what the code does at the failing input).  On a controller that is already
  aborted, \<open>whenAborted\<close> returns a resolved promise.  On a fresh controller, the
  promise of \<open>whenAborted\<close> is promise 0.  If \<open>abort\<close> is called in the same task,
  the promise is resolved.  If the task ends first (here 5000 ms pass, as in the getter's
  own example), the queued \<open>registration.unregister()\<close> has already removed the
  resolving listener: \<open>abort\<close> then aborts the signal and the promise stays pending.
\<close>

theorem whenAborted_unregisters_before_abort:
  "promises (snd (whenAborted (signal 0 (snd (new_EnhancedAbortController init)))
              (abort 0 None (snd (new_EnhancedAbortController init))))) ! 0 = Resolved
   \<and> fst (whenAborted (signal 0 (snd (new_EnhancedAbortController init)))
              (snd (new_EnhancedAbortController init))) = 0
   \<and> promises (abort 0 None
      (snd (whenAborted (signal 0 (snd (new_EnhancedAbortController init)))
              (snd (new_EnhancedAbortController init))))) ! 0 = Resolved
   \<and> listeners (signals (run_microtasks
      (snd (whenAborted (signal 0 (snd (new_EnhancedAbortController init)))
              (snd (new_EnhancedAbortController init))))) ! 0) = []
   \<and> isAborted 0 (abort 0 None (sleep 5000
      (snd (whenAborted (signal 0 (snd (new_EnhancedAbortController init)))
              (snd (new_EnhancedAbortController init))))))
   \<and> promises (abort 0 None (sleep 5000
      (snd (whenAborted (signal 0 (snd (new_EnhancedAbortController init)))
              (snd (new_EnhancedAbortController init)))))) ! 0 = Pending"
  by (simp add: eval_loop_defs)

section \<open>Linked controllers\<close>



lemma linked_pre_clearTimeout [simp]:
  "linked_pre m k n cs fired (clearTimeout c \<sigma>) = linked_pre m k n cs fired \<sigma>"
  by (simp add: linked_pre_def)








section \<open>throwIfAborted, and what escapes from the other calls\<close>

text \<open>
  C5 (as the code has it).  \<open>throwIfAborted\<close> raises exactly when the signal is
  aborted, and what it raises is the AbortError built from the optional message: the
  message when one is given, the default "The operation was aborted." otherwise.  It is
  the only call with a \<open>throw\<close> of its own.  Something escapes from \<open>register\<close>
  exactly when the signal is already aborted and the callback, which \<open>register\<close> then
  calls inline, throws: what escapes is what the callback throws.  Something escapes from
  \<open>unregister\<close>/\<open>dispose\<close> of a registration exactly when the registration exists,
  is not disposed and holds a function that throws.  Nothing escapes from any other call:
  of all calls, one ends in an error only in these three ways.
\<close>

theorem throwIfAborted_and_inline_calls_raise:
  "(throwIfAborted g m s = Inl e \<longleftrightarrow> signal_isAborted g s \<and> e = new_AbortError m)
   \<and> (throwIfAborted g m s = Inr () \<longleftrightarrow> \<not> signal_isAborted g s)
   \<and> message (new_AbortError (Some x)) = x
   \<and> message (new_AbortError None) = ''The operation was aborted.''
   \<and> error_name (new_AbortError m) = ''AbortError''
   \<and> (register_any g f s = Inl y \<longleftrightarrow> signal_isAborted g s \<and> (\<exists>n. f = Throws n y))
   \<and> (unregister_raises r s = Some y \<longleftrightarrow>
        r < length (registrations s) \<and> \<not> registration_disposed (registrations s ! r)
        \<and> (\<exists>n. unregisterCallback (registrations s ! r) = Some (ThrowingAction n)
                 \<and> y = CallerThrown n))
   \<and> (exec k s = Inl y \<longleftrightarrow>
        (\<exists>g' m'. k = ThrowIfAborted g' m' \<and> signal_isAborted g' s
                  \<and> y = AbortErrorThrown (new_AbortError m'))
        \<or> (\<exists>g' n. k = Register g' (Throws n y) \<and> signal_isAborted g' s)
        \<or> (\<exists>r'. (k = RegistrationUnregister r' \<or> k = RegistrationDispose r')
                  \<and> unregister_raises r' s = Some y))"
proof -
  have reg: "register_any g f s = Inl y \<longleftrightarrow> signal_isAborted g s \<and> (\<exists>n. f = Throws n y)"
    for g f s
    by (cases f) auto
  have unreg: "unregister_raises r s = Some y \<longleftrightarrow>
        r < length (registrations s) \<and> \<not> registration_disposed (registrations s ! r)
        \<and> (\<exists>n. unregisterCallback (registrations s ! r) = Some (ThrowingAction n)
                 \<and> y = CallerThrown n)"
    by (auto simp: unregister_raises_def split: option.splits unregister_action.splits)
  have ex: "exec k s = Inl y \<longleftrightarrow>
        (\<exists>g' m'. k = ThrowIfAborted g' m' \<and> signal_isAborted g' s
                  \<and> y = AbortErrorThrown (new_AbortError m'))
        \<or> (\<exists>g' n. k = Register g' (Throws n y) \<and> signal_isAborted g' s)
        \<or> (\<exists>r'. (k = RegistrationUnregister r' \<or> k = RegistrationDispose r')
                  \<and> unregister_raises r' s = Some y)"
  proof (cases k)
    case (Register g' f')
    have "exec k s = Inl y \<longleftrightarrow> register_any g' f' s = Inl y"
      by (simp add: Register split: sum.splits prod.splits)
    then show ?thesis by (auto simp: reg Register)
  next
    case (ThrowIfAborted g' m')
    then show ?thesis by (auto simp: throwIfAborted_def)
  next
    case (RegistrationUnregister r')
    then show ?thesis by (auto split: option.splits)
  next
    case (RegistrationDispose r')
    then show ?thesis by (auto split: option.splits)
  qed simp_all
  have thr: "(throwIfAborted g m s = Inl e \<longleftrightarrow> signal_isAborted g s \<and> e = new_AbortError m)
   \<and> (throwIfAborted g m s = Inr () \<longleftrightarrow> \<not> signal_isAborted g s)
   \<and> message (new_AbortError (Some x)) = x
   \<and> message (new_AbortError None) = ''The operation was aborted.''
   \<and> error_name (new_AbortError m) = ''AbortError''"
    by (auto simp: throwIfAborted_def new_AbortError_def)
  show ?thesis
    using thr reg[of g f s] unreg ex by blast
qed

text \<open>The claim as the specification states it fails: \<open>register\<close> on an aborted signal,
  with a callback that throws (here the AbortError of a \<open>throwIfAborted\<close> the callback
  calls), raises.\<close>

theorem register_raises_counterexample:
  "exec (Register (fst (signal_aborted init)) (Throws 1 (AbortErrorThrown (new_AbortError None))))
        (snd (signal_aborted init))
     = Inl (AbortErrorThrown (new_AbortError None))"
  by (simp add: eval_defs)

section \<open>AbortRegistration: how often the function is called\<close>

lemma registrations_invoke [simp]: "registrations (invoke f s) = registrations s"
  by (cases f) (simp_all add: removeEventListener_def)

lemma action_log_invoke [simp]: "action_log (invoke f s) = action_log s @ [f]"
  by (cases f) (simp_all add: removeEventListener_def)

lemma calls_on_disposed:
  "unregisterCallback (registrations s ! r) = None \<Longrightarrow> fold (call_registration r) ops s = s"
proof (induction ops)
  case Nil
  then show ?case by simp
next
  case (Cons x xs)
  then show ?case by (cases x) (simp_all add: unregister_noop registration_dispose_def)
qed

text \<open>
  With a function that returns and does not call back into the registration (the
  library's own two, or such a function of a caller), \<open>n \<ge> 1\<close> calls of
  \<open>unregister\<close> and \<open>dispose\<close> in any interleaving do what one \<open>unregister\<close> does:
  the function is called exactly once, afterwards \<open>isDisposed\<close> is true and the
  reference is cleared, and every further call leaves the state as it is.
\<close>

lemma unregister_once_returning:
  assumes "r < length (registrations s)"
    and "\<not> registration_disposed (registrations s ! r)"
    and "unregisterCallback (registrations s ! r) = Some f"
    and "f = RemoveEventListener a l \<or> f = EmptyAction \<or> f = UserAction m"
    and "ops \<noteq> []"
  shows "fold (call_registration r) ops s = unregister r s
       \<and> action_log (fold (call_registration r) ops s) = action_log s @ [f]
       \<and> registration_isDisposed r (fold (call_registration r) ops s)
       \<and> unregisterCallback (registrations (fold (call_registration r) ops s) ! r) = None
       \<and> unregister r (fold (call_registration r) ops s) = fold (call_registration r) ops s
       \<and> registration_dispose r (fold (call_registration r) ops s) = fold (call_registration r) ops s"
proof -
  obtain x xs where ops: "ops = x # xs" using assms(5) by (cases ops) auto
  have first: "call_registration r x s = unregister r s"
    by (cases x) (simp_all add: registration_dispose_def)
  have u: "unregister r s = mark_disposed r (invoke f s)"
    using unregister_returning[OF assms(1-3), of a l m] assms(4) by blast
  have cleared: "unregisterCallback (registrations (unregister r s) ! r) = None"
    and disposed: "registration_disposed (registrations (unregister r s) ! r)"
    and logged: "action_log (unregister r s) = action_log s @ [f]"
    using assms(1) by (simp_all add: u mark_disposed_def)
  have eq: "fold (call_registration r) ops s = unregister r s"
    by (simp add: ops first calls_on_disposed[OF cleared])
  have "unregister r (unregister r s) = unregister r s"
    using cleared by (simp add: unregister_noop)
  then show ?thesis
    using cleared disposed logged
    by (simp add: eq registration_dispose_def registration_isDisposed_def)
qed

text \<open>
  A function that calls \<open>unregister\<close> of its registration \<open>k\<close> more times runs
  \<open>k + 1\<close> times in one call of \<open>unregister\<close>: every nested call passes the guard,
  the reference being cleared and \<open>disposed\<close> set only after the function returns.
\<close>

lemma unregister_reentrant:
  assumes "r < length (registrations s)" and "\<not> registration_disposed (registrations s ! r)"
    and "unregisterCallback (registrations s ! r) = Some (ReentrantAction n k)"
  shows "action_log (unregister r s) = action_log s @ map (ReentrantAction n) (rev [0..<Suc k])
       \<and> registration_disposed (registrations (unregister r s) ! r)
       \<and> unregisterCallback (registrations (unregister r s) ! r) = None
       \<and> length (registrations (unregister r s)) = length (registrations s)"
  using assms
proof (induction k arbitrary: s)
  case 0
  have "unregister r s = mark_disposed r (invoke (ReentrantAction n 0) s)"
    using unregister_returning[OF 0(1,2,3), of _ _ n] by simp
  then show ?case using 0(1) by (simp add: mark_disposed_def)
next
  case (Suc k)
  let ?s' = "(invoke (ReentrantAction n (Suc k)) s)\<lparr>registrations := (registrations s)[r := (registrations s ! r)
                                 \<lparr>unregisterCallback := Some (ReentrantAction n k)\<rparr>]\<rparr>"
  have u: "unregister r s = mark_disposed r (unregister r ?s')"
    using Suc.prems by (subst unregister.simps) (simp del: invoke.simps)
  have p: "r < length (registrations ?s')" "\<not> registration_disposed (registrations ?s' ! r)"
    "unregisterCallback (registrations ?s' ! r) = Some (ReentrantAction n k)"
    using Suc.prems by simp_all
  note ih = Suc.IH[OF p]
  have len: "r < length (registrations (unregister r ?s'))" using ih Suc.prems(1) by simp
  have "action_log (unregister r s) = action_log (unregister r ?s')"
    by (simp add: u mark_disposed_def)
  also have "\<dots> = action_log ?s' @ map (ReentrantAction n) (rev [0..<Suc k])"
    using ih by blast
  also have "\<dots> = action_log s @ map (ReentrantAction n) (rev [0..<Suc (Suc k)])"
    by simp
  finally have lg: "action_log (unregister r s) = action_log s @ map (ReentrantAction n) (rev [0..<Suc (Suc k)])" .
  have ln: "length (registrations (unregister r ?s')) = length (registrations s)"
    using ih by simp
  have d: "registration_disposed (registrations (unregister r s) ! r)"
    "unregisterCallback (registrations (unregister r s) ! r) = None"
    "length (registrations (unregister r s)) = length (registrations s)"
    using len ln by (simp_all add: u mark_disposed_def)
  show ?case using lg d by blast
qed

text \<open>
  C6 (what the code does at the failing inputs).  \<open>unregister\<close> calls the function
  before it clears the reference and sets \<open>disposed\<close>.  A function that calls
  \<open>unregister\<close> of its registration again (here four more times) therefore passes the
  guard each time: one call of \<open>unregister\<close> runs it five times.  A function that throws
  leaves the registration as it was: two calls of \<open>unregister\<close> run it twice, each call
  raises, and \<open>isDisposed\<close> stays false.
\<close>

theorem unregister_calls_function_before_disposed:
  "action_log (unregister 0 (snd (new_AbortRegistration (ReentrantAction 7 4) init)))
     = [ReentrantAction 7 4, ReentrantAction 7 3, ReentrantAction 7 2, ReentrantAction 7 1,
        ReentrantAction 7 0]
   \<and> registration_isDisposed 0 (unregister 0 (snd (new_AbortRegistration (ReentrantAction 7 4) init)))
   \<and> action_log (unregister 0 (unregister 0 (snd (new_AbortRegistration (ThrowingAction 7) init))))
     = [ThrowingAction 7, ThrowingAction 7]
   \<and> \<not> registration_isDisposed 0
        (unregister 0 (unregister 0 (snd (new_AbortRegistration (ThrowingAction 7) init))))
   \<and> unregister_raises 0 (snd (new_AbortRegistration (ThrowingAction 7) init))
     = Some (CallerThrown 7)
   \<and> unregister_raises 0 (unregister 0 (snd (new_AbortRegistration (ThrowingAction 7) init)))
     = Some (CallerThrown 7)"
proof -
  let ?s = "snd (new_AbortRegistration (ReentrantAction 7 4) init)"
  let ?t = "snd (new_AbortRegistration (ThrowingAction 7) init)"
  have s: "0 < length (registrations ?s)" "\<not> registration_disposed (registrations ?s ! 0)"
    "unregisterCallback (registrations ?s ! 0) = Some (ReentrantAction 7 4)"
    by (simp_all add: new_AbortRegistration_def init_def)
  have log_s: "action_log ?s = []"
    by (simp add: new_AbortRegistration_def init_def)
  have up: "rev [0..<Suc 4] = [4, 3, 2, 1, 0::nat]"
    by (simp add: upt_rec)
  have a: "action_log (unregister 0 ?s)
     = [ReentrantAction 7 4, ReentrantAction 7 3, ReentrantAction 7 2, ReentrantAction 7 1,
        ReentrantAction 7 0]"
    using unregister_reentrant[OF s] by (simp only: log_s up list.map append_Nil)
  have b: "registration_isDisposed 0 (unregister 0 ?s)"
    using unregister_reentrant[OF s] by (simp only: registration_isDisposed_def)
  have t: "0 < length (registrations ?t)" "\<not> registration_disposed (registrations ?t ! 0)"
    "unregisterCallback (registrations ?t ! 0) = Some (ThrowingAction 7)"
    by (simp_all add: new_AbortRegistration_def init_def)
  have u1: "unregister 0 ?t = invoke (ThrowingAction 7) ?t"
    by (rule unregister_throwing[OF t])
  have t1: "0 < length (registrations (invoke (ThrowingAction 7) ?t))"
    "\<not> registration_disposed (registrations (invoke (ThrowingAction 7) ?t) ! 0)"
    "unregisterCallback (registrations (invoke (ThrowingAction 7) ?t) ! 0) = Some (ThrowingAction 7)"
    using t by simp_all
  have u2: "unregister 0 (unregister 0 ?t)
     = invoke (ThrowingAction 7) (invoke (ThrowingAction 7) ?t)"
    unfolding u1 by (rule unregister_throwing[OF t1])
  have c: "action_log (unregister 0 (unregister 0 ?t)) = [ThrowingAction 7, ThrowingAction 7]"
    unfolding u2 by (simp add: new_AbortRegistration_def init_def)
  have d: "\<not> registration_isDisposed 0 (unregister 0 (unregister 0 ?t))"
    unfolding u2 using t by (simp add: registration_isDisposed_def)
  have e: "unregister_raises 0 ?t = Some (CallerThrown 7)"
    using t by (simp add: unregister_raises_def)
  have f: "unregister_raises 0 (unregister 0 ?t) = Some (CallerThrown 7)"
    unfolding u1 using t1 by (simp add: unregister_raises_def)
  show ?thesis using a b c d e f by blast
qed

section \<open>A disposed controller\<close>

lemma abort_disposed:
  "disposed (controllers s ! c) \<Longrightarrow> abort c r s = s"
  by (simp add: abort_def)

lemma abortAfter_disposed:
  "disposed (controllers s ! c) \<Longrightarrow> abortAfter c ms s = s"
  by (simp add: abortAfter_def)

lemma dispose_disposed:
  "disposed (controllers s ! c) \<Longrightarrow> dispose c s = s"
  by (simp add: dispose_def)

lemma disposed_dispose:
  "c < length (controllers s) \<Longrightarrow> disposed (controllers (dispose c s) ! c)"
  by (simp add: dispose_def)

lemma dispose_frame:
  "signals (dispose c s) = signals s" "calls (dispose c s) = calls s"
  "now (dispose c s) = now s" "microtasks (dispose c s) = microtasks s"
  "controller (controllers (dispose c s) ! c) = controller (controllers s ! c)"
proof -
  show "signals (dispose c s) = signals s" by (simp add: dispose_def)
  show "calls (dispose c s) = calls s" by (simp add: dispose_def)
  show "now (dispose c s) = now s" by (simp add: dispose_def)
  show "microtasks (dispose c s) = microtasks s" by (simp add: dispose_def)
  show "controller (controllers (dispose c s) ! c) = controller (controllers s ! c)"
    by (cases "c < length (controllers s)") (simp_all add: dispose_def list_update_beyond)
qed

lemma exec_all_disposed:
  assumes "disposed (controllers s ! c)"
    and "\<forall>k\<in>set ops. (\<exists>r. k = Abort c r) \<or> (\<exists>ms. k = AbortAfter c ms)"
  shows "exec_all ops s = Inr s"
  using assms(2)
proof (induction ops)
  case Nil
  then show ?case by simp
next
  case (Cons k ops)
  then have "exec k s = Inr s"
    using assms(1) by (auto simp: abort_disposed abortAfter_disposed)
  then show ?case using Cons by simp
qed

lemma dispose_timers:
  "\<not> disposed (controllers s ! c) \<Longrightarrow>
   timers (dispose c s) = filter (\<lambda>t. Some (timer_id t) \<noteq> timeoutId (controllers s ! c)) (timers s)"
  by (cases "c < length (controllers s)")
     (simp_all add: dispose_def clearTimeout_timers list_update_beyond)

text \<open>
  C7.  \<open>dispose\<close> marks the controller disposed and does not fire the signal: the
  signals, the log of calls, \<open>isAborted\<close> and the reason are as before.  From then on
  \<open>dispose\<close>, \<open>abort\<close> with any reason and \<open>abortAfter\<close> with any delay return
  the state unchanged, and so does every sequence of such calls.  When the only pending
  timers were the controller's own deferred abort, none is left after \<open>dispose\<close>, and
  after \<open>abort\<close>, \<open>abortAfter ms\<close> and any wait \<open>isAborted\<close> is what it was
  (false for a controller never aborted) and no callback has run.
\<close>

theorem disposed_controller_inert:
  assumes "c < length (controllers s)"
  shows "isDisposed c (dispose c s)
       \<and> signals (dispose c s) = signals s
       \<and> calls (dispose c s) = calls s
       \<and> isAborted c (dispose c s) = isAborted c s
       \<and> controller_reason c (dispose c s) = controller_reason c s
       \<and> dispose c (dispose c s) = dispose c s
       \<and> abort c r (dispose c s) = dispose c s
       \<and> abortAfter c ms (dispose c s) = dispose c s
       \<and> ((\<forall>k\<in>set ops. (\<exists>r'. k = Abort c r') \<or> (\<exists>ms'. k = AbortAfter c ms'))
            \<longrightarrow> exec_all ops (dispose c s) = Inr (dispose c s))
       \<and> (\<not> isDisposed c s
            \<and> (\<forall>t\<in>set (timers s). Some (timer_id t) = timeoutId (controllers s ! c))
            \<longrightarrow> timers (dispose c s) = []
              \<and> isAborted c (sleep d (abortAfter c ms (abort c r (dispose c s)))) = isAborted c s
              \<and> calls (sleep d (abortAfter c ms (abort c r (dispose c s)))) = calls s)"
proof -
  let ?s = "dispose c s"
  have d: "disposed (controllers ?s ! c)" using assms by (rule disposed_dispose)
  have noop: "abort c r ?s = ?s" "abortAfter c ms ?s = ?s" "dispose c ?s = ?s"
    using d by (simp_all add: abort_disposed abortAfter_disposed dispose_disposed)
  have frame: "isAborted c ?s = isAborted c s" "controller_reason c ?s = controller_reason c s"
    by (simp_all add: isAborted_def controller_reason_def dispose_frame)
  have ops: "(\<forall>k\<in>set ops. (\<exists>r'. k = Abort c r') \<or> (\<exists>ms'. k = AbortAfter c ms'))
            \<longrightarrow> exec_all ops ?s = Inr ?s"
    using exec_all_disposed[OF d] by blast
  have wait: "timers ?s = []
      \<and> isAborted c (sleep d (abortAfter c ms (abort c r ?s))) = isAborted c s
      \<and> calls (sleep d (abortAfter c ms (abort c r ?s))) = calls s"
    if nd: "\<not> isDisposed c s"
      and own: "\<forall>t\<in>set (timers s). Some (timer_id t) = timeoutId (controllers s ! c)"
  proof -
    have "timers ?s = filter (\<lambda>t. Some (timer_id t) \<noteq> timeoutId (controllers s ! c)) (timers s)"
      using nd by (simp add: dispose_timers isDisposed_def)
    then have t: "timers ?s = []" using own by (simp add: filter_empty_conv)
    then have "timers (run_microtasks ?s) = []" by simp
    then have "sleep d ?s = (run_microtasks ?s)\<lparr>now := max (now (run_microtasks ?s)) (now ?s + d)\<rparr>"
      by (simp add: sleep_def advance_to_no_timers)
    then show ?thesis
      using t by (simp add: noop isAborted_def dispose_frame)
  qed
  show ?thesis
    using d wait by (simp add: noop frame ops isDisposed_def dispose_frame)
qed


theorem disposed_controller_inert_witness:
  "exec_all [Abort 0 (Some ''x''), AbortAfter 0 10]
      (dispose 0 (abortAfter 0 50 (register_each (signal 0 (snd (new_EnhancedAbortController init)))
          [UserCallback 1] (snd (new_EnhancedAbortController init)))))
     = Inr (dispose 0 (abortAfter 0 50 (register_each (signal 0 (snd (new_EnhancedAbortController init)))
          [UserCallback 1] (snd (new_EnhancedAbortController init)))))
   \<and> \<not> isAborted 0 (sleep 200 (abortAfter 0 100 (abort 0 (Some ''x'')
      (dispose 0 (abortAfter 0 50 (register_each (signal 0 (snd (new_EnhancedAbortController init)))
          [UserCallback 1] (snd (new_EnhancedAbortController init))))))))
   \<and> calls (sleep 200 (abortAfter 0 100 (abort 0 (Some ''x'')
      (dispose 0 (abortAfter 0 50 (register_each (signal 0 (snd (new_EnhancedAbortController init)))
          [UserCallback 1] (snd (new_EnhancedAbortController init)))))))) = []"
proof -
  let ?s = "abortAfter 0 50 (register_each (signal 0 (snd (new_EnhancedAbortController init)))
          [UserCallback 1] (snd (new_EnhancedAbortController init)))"
  have s: "?s = \<lparr>signals = [\<lparr>aborted = False, reason = Undefined, listeners = [(0, UserCallback 1)]\<rparr>],
      controllers = [\<lparr>controller = 0,
          private_signal = \<lparr>abortSignal = 0, private_canBeAborted = True\<rparr>,
          timeoutId = Some 1, disposed = False\<rparr>],
      registrations = [\<lparr>registration_disposed = False,
          unregisterCallback = Some (RemoveEventListener 0 0)\<rparr>],
      promises = [], timers = [\<lparr>timer_id = 1, due = 50, timer_callback = ControllerAbort 0 None\<rparr>],
      microtasks = [], now = 0, fresh = 2, calls = [], action_log = []\<rparr>"
    by (simp add: eval_loop_defs abortAfter_def setTimeout_def clearTimeout_native_def)
  have a: "0 < length (controllers ?s)"
    and b: "\<forall>k\<in>set [Abort 0 (Some ''x''), AbortAfter 0 10].
              (\<exists>r'. k = Abort 0 r') \<or> (\<exists>ms'. k = AbortAfter 0 ms')"
    and c: "\<not> isDisposed 0 ?s"
    and d: "\<forall>t\<in>set (timers ?s). Some (timer_id t) = timeoutId (controllers ?s ! 0)"
    and e: "\<not> isAborted 0 ?s" "calls ?s = []"
    unfolding s by (simp_all add: isDisposed_def isAborted_def)
  note inst = disposed_controller_inert[OF a, of "Some ''x''" 100
      "[Abort 0 (Some ''x''), AbortAfter 0 10]" 200]
  have x: "exec_all [Abort 0 (Some ''x''), AbortAfter 0 10] (dispose 0 ?s) = Inr (dispose 0 ?s)"
    using inst b by blast
  have y: "isAborted 0 (sleep 200 (abortAfter 0 100 (abort 0 (Some ''x'') (dispose 0 ?s))))
             = isAborted 0 ?s
         \<and> calls (sleep 200 (abortAfter 0 100 (abort 0 (Some ''x'') (dispose 0 ?s)))) = calls ?s"
    using inst c d by blast
  show ?thesis
    using x y e by (simp only: simp_thms)
qed

section \<open>tryReset\<close>

text \<open>
  C8.  On a controller that is not disposed (aborted or not), \<open>tryReset\<close> returns true,
  cancels the pending timer (the timer named by \<open>timeoutId\<close> leaves the queue and
  \<open>timeoutId\<close> is cleared) and replaces the owned pair: the controller now holds a
  native controller at a new address whose signal is not aborted, has no reason and no
  listeners; the old signal stays in the store as it was and no listener fires.  On a
  disposed controller it returns false and the state is unchanged.
\<close>

theorem tryReset_spec:
  assumes "c < length (controllers s)"
  shows "(\<not> isDisposed c s \<longrightarrow>
           fst (tryReset c s)
         \<and> timeoutId (controllers (snd (tryReset c s)) ! c) = None
         \<and> timers (snd (tryReset c s))
             = filter (\<lambda>t. Some (timer_id t) \<noteq> timeoutId (controllers s ! c)) (timers s)
         \<and> signals (snd (tryReset c s))
             = signals s @ [\<lparr>aborted = False, reason = Undefined, listeners = []\<rparr>]
         \<and> controller (controllers (snd (tryReset c s)) ! c) = length (signals s)
         \<and> signal c (snd (tryReset c s))
             = \<lparr>abortSignal = length (signals s), private_canBeAborted = True\<rparr>
         \<and> \<not> isAborted c (snd (tryReset c s))
         \<and> \<not> signal_isAborted (signal c (snd (tryReset c s))) (snd (tryReset c s))
         \<and> controller_reason c (snd (tryReset c s)) = Undefined
         \<and> \<not> isDisposed c (snd (tryReset c s))
         \<and> calls (snd (tryReset c s)) = calls s)
       \<and> (isDisposed c s \<longrightarrow> tryReset c s = (False, s))"
  using assms
  by (simp add: tryReset_def isDisposed_def isAborted_def signal_isAborted_def signal_def
      controller_reason_def new_AbortController_def Let_def clearTimeout_timers
      clearTimeout_controller)

theorem tryReset_spec_witness:
  "fst (tryReset 0 (abort 0 None (snd (new_EnhancedAbortController init))))
   \<and> \<not> isAborted 0 (snd (tryReset 0 (abort 0 None (snd (new_EnhancedAbortController init)))))
   \<and> tryReset 0 (dispose 0 (snd (new_EnhancedAbortController init)))
      = (False, dispose 0 (snd (new_EnhancedAbortController init)))"
proof -
  let ?s0 = "snd (new_EnhancedAbortController init)"
  have a: "0 < length (controllers (abort 0 None ?s0))"
    and b: "\<not> isDisposed 0 (abort 0 None ?s0)"
    and c: "0 < length (controllers (dispose 0 ?s0))"
    and d: "isDisposed 0 (dispose 0 ?s0)"
    by (simp_all add: eval_defs)
  show ?thesis
    using tryReset_spec[OF a] tryReset_spec[OF c] b d by blast
qed

section \<open>abortAfter: the last call wins\<close>

text \<open>The timer queue when no timer is due, and when the newest timer is the only one
  due; what time passing keeps.\<close>

lemma next_timer_none:
  "\<forall>t\<in>set ts. T < due t \<Longrightarrow> next_timer T ts = None"
proof -
  assume "\<forall>t\<in>set ts. T < due t"
  then have "filter (\<lambda>t. due t \<le> T) ts = []"
    by (induction ts) auto
  then show ?thesis by (simp add: next_timer_def)
qed

lemma advance_to_idle:
  assumes "\<forall>t\<in>set (timers s). T < due t"
  shows "advance_to T s = s\<lparr>now := max (now s) T\<rparr>"
  using next_timer_none[OF assms] by (simp add: advance_to.simps[of T s])

lemma earliest_last:
  "\<forall>t\<in>set ts. due u < due t \<Longrightarrow> earliest (ts @ [u]) = Some u"
  by (induction ts) simp_all

lemma next_timer_last:
  assumes "\<forall>t\<in>set ts. due u < due t" and "due u \<le> T"
  shows "next_timer T (ts @ [u]) = Some u"
proof -
  have "\<forall>t\<in>set (filter (\<lambda>t. due t \<le> T) ts). due u < due t"
    using assms(1) by simp
  then have "earliest (filter (\<lambda>t. due t \<le> T) ts @ [u]) = Some u"
    by (rule earliest_last)
  then show ?thesis using assms(2) by (simp add: next_timer_def)
qed

lemma advance_to_keeps_aborted:
  "aborted (signals s ! x) \<Longrightarrow> aborted (signals (advance_to T s) ! x)"
proof (induction T s rule: advance_to.induct)
  case (1 T s)
  show ?case
  proof (cases "next_timer T (timers s)")
    case None
    then show ?thesis using 1(2) by (simp add: advance_to.simps[of T s])
  next
    case (Some t)
    let ?s' = "run_microtasks (run [timer_callback t]
                 (s\<lparr>timers := remove1 t (timers s), now := max (now s) (due t)\<rparr>))"
    have "aborted (signals (s\<lparr>timers := remove1 t (timers s), now := max (now s) (due t)\<rparr>) ! x)"
      using 1(2) by simp
    then have "aborted (signals ?s' ! x)"
      using run_keeps_aborted by simp
    then have "aborted (signals (advance_to T ?s') ! x)"
      by (rule 1(1)[OF Some])
    then show ?thesis using Some by (simp add: advance_to.simps[of T s])
  qed
qed

lemma advance_to_controller_fields:
  "controller (controllers (advance_to T s) ! c) = controller (controllers s ! c)"
proof (induction T s rule: advance_to.induct)
  case (1 T s)
  show ?case
  proof (cases "next_timer T (timers s)")
    case None
    then show ?thesis by (simp add: advance_to.simps[of T s])
  next
    case (Some t)
    let ?s' = "run_microtasks (run [timer_callback t]
                 (s\<lparr>timers := remove1 t (timers s), now := max (now s) (due t)\<rparr>))"
    have "controller (controllers (advance_to T ?s') ! c) = controller (controllers ?s' ! c)"
      by (rule 1[OF Some])
    also have "\<dots> = controller (controllers s ! c)"
      by simp
    finally show ?thesis using Some by (simp add: advance_to.simps[of T s])
  qed
qed

text \<open>A delay that Node's timer runs as given.\<close>

lemma timer_delay_in_range: "1 \<le> ms \<Longrightarrow> ms \<le> TIMEOUT_MAX \<Longrightarrow> timer_delay ms = ms"
  by (simp add: timer_delay_def)

lemma abortAfter_last_wins:
  assumes inv: "timer_inv s" and ok: "controller_ok c s" and nd: "\<not> isDisposed c s"
    and na: "\<not> isAborted c s"
    and others: "\<forall>t\<in>set (timers s). Some (timer_id t) \<noteq> timeoutId (controllers s ! c)
                   \<longrightarrow> now s + e + d2 < due t"
    and d: "d1 < d2" and b: "d2 \<le> TIMEOUT_MAX" and e: "e < d1"
  shows "timers (abortAfter c d2 (sleep e (abortAfter c d1 s)))
           = filter (\<lambda>t. Some (timer_id t) \<noteq> timeoutId (controllers s ! c)) (timers s)
             @ [\<lparr>timer_id = Suc (fresh s), due = now s + e + d2,
                 timer_callback = ControllerAbort c None\<rparr>]"
    and "T < now s + e + d2 \<Longrightarrow>
           \<not> isAborted c (advance_to T (abortAfter c d2 (sleep e (abortAfter c d1 s))))
           \<and> calls (advance_to T (abortAfter c d2 (sleep e (abortAfter c d1 s)))) = calls s"
    and "now s + e + d2 \<le> T \<Longrightarrow>
           isAborted c (advance_to T (abortAfter c d2 (sleep e (abortAfter c d1 s))))"
proof -
  let ?a = "controller (controllers s ! c)"
  let ?O = "filter (\<lambda>t. Some (timer_id t) \<noteq> timeoutId (controllers s ! c)) (timers s)"
  let ?t1 = "\<lparr>timer_id = fresh s, due = now s + d1, timer_callback = ControllerAbort c None\<rparr>"
  let ?t2 = "\<lparr>timer_id = Suc (fresh s), due = now s + e + d2, timer_callback = ControllerAbort c None\<rparr>"
  let ?s1 = "abortAfter c d1 s"
  let ?s2 = "sleep e ?s1"
  let ?s3 = "abortAfter c d2 ?s2"
  have c: "c < length (controllers s)" and a: "?a < length (signals s)"
    using ok by (simp_all add: controller_ok_def)
  have nd': "\<not> disposed (controllers s ! c)" using nd by (simp add: isDisposed_def)
  have na': "\<not> aborted (signals s ! ?a)" using na by (simp add: isAborted_def)
  have dl: "timer_delay d1 = d1" "timer_delay d2 = d2"
    using d b e by (simp_all add: timer_delay_in_range)
  have O: "\<forall>t\<in>set ?O. now s + e + d2 < due t"
    using others by simp
  have ids: "\<forall>t\<in>set ?O. timer_id t \<noteq> fresh s"
    using inv by (auto simp: timer_inv_def)
  have t1: "timers ?s1 = ?O @ [?t1]" "timeoutId (controllers ?s1 ! c) = Some (fresh s)"
    "fresh ?s1 = Suc (fresh s)"
    using abortAfter_timers[OF nd' c, of d1] by (simp_all add: dl)
  have idle1: "\<forall>t\<in>set (timers (run_microtasks ?s1)). now (run_microtasks ?s1) + e < due t"
    using O e by (auto simp: t1 abortAfter_frame)
  have s2: "?s2 = (run_microtasks ?s1)\<lparr>now := now ?s1 + e\<rparr>"
    unfolding sleep_def using advance_to_idle[OF idle1] by simp
  have f2: "timers ?s2 = ?O @ [?t1]" "controllers ?s2 = controllers ?s1" "now ?s2 = now s + e"
    "fresh ?s2 = Suc (fresh s)" "calls ?s2 = calls s"
    "aborted (signals ?s2 ! ?a) = aborted (signals s ! ?a)"
    "length (signals ?s2) = length (signals s)"
    by (simp_all add: s2 t1 abortAfter_frame)
  have nd2: "\<not> disposed (controllers ?s2 ! c)" and c2: "c < length (controllers ?s2)"
    using nd' c by (simp_all add: f2 abortAfter_frame)
  have keep: "filter (\<lambda>t. timer_id t \<noteq> fresh s) ?O = ?O"
    using ids by (simp only: filter_id_conv) 
  have t3: "timers ?s3 = ?O @ [?t2]"
    using abortAfter_timers(1)[OF nd2 c2, of d2] keep by (simp add: f2 t1 dl)
  show "timers ?s3 = ?O @ [?t2]" by (rule t3)
  have f3: "controller (controllers ?s3 ! c) = ?a" "\<not> disposed (controllers ?s3 ! c)"
    "c < length (controllers ?s3)" "\<not> aborted (signals ?s3 ! ?a)" "calls ?s3 = calls s"
    "length (signals ?s3) = length (signals s)"
    using nd' c na' by (simp_all add: abortAfter_frame f2)
  show "\<not> isAborted c (advance_to T ?s3) \<and> calls (advance_to T ?s3) = calls s"
    if "T < now s + e + d2"
  proof -
    have "\<forall>t\<in>set (timers ?s3). T < due t"
      using O that by (auto simp: t3)
    then have "advance_to T ?s3 = ?s3\<lparr>now := max (now ?s3) T\<rparr>"
      by (rule advance_to_idle)
    then show ?thesis using f3 by (simp add: isAborted_def)
  qed
  show "isAborted c (advance_to T ?s3)" if "now s + e + d2 \<le> T"
  proof -
    let ?\<sigma> = "?s3\<lparr>timers := remove1 ?t2 (timers ?s3), now := max (now ?s3) (due ?t2)\<rparr>"
    let ?\<tau> = "run_microtasks (run [timer_callback ?t2] ?\<sigma>)"
    have "\<forall>t\<in>set ?O. due ?t2 < due t" using O by simp
    then have nx: "next_timer T (timers ?s3) = Some ?t2"
      unfolding t3 by (rule next_timer_last) (use that in simp)
    have adv: "advance_to T ?s3 = advance_to T ?\<tau>"
      using nx by (simp add: advance_to.simps[of T ?s3])
    have "aborted (signals (run [ControllerAbort c None] ?\<sigma>) ! controller (controllers ?\<sigma> ! c))"
      by (rule run_ControllerAbort_aborts) (use f3 a in simp_all)
    then have "aborted (signals (run [ControllerAbort c None] ?\<sigma>) ! ?a)"
      using f3 by simp
    then have "aborted (signals ?\<tau> ! ?a)"
      by (simp del: run.simps)
    then have "aborted (signals (advance_to T ?\<tau>) ! ?a)"
      by (rule advance_to_keeps_aborted)
    moreover have "controller (controllers (advance_to T ?\<tau>) ! c) = ?a"
      using f3 by (simp add: advance_to_controller_fields del: run.simps)
    ultimately show ?thesis
      unfolding adv by (simp add: isAborted_def)
  qed
qed

lemma pending_last_wins:
  assumes inv: "timer_inv s"
  shows "pending c (s'\<lparr>timers := filter (\<lambda>t. Some (timer_id t) \<noteq> timeoutId (controllers s ! c)) (timers s) @ [u]\<rparr>)
       = filter (\<lambda>t. timer_callback t = ControllerAbort c None) [u]"
proof -
  have "filter (\<lambda>t. timer_callback t = ControllerAbort c None)
          (filter (\<lambda>t. Some (timer_id t) \<noteq> timeoutId (controllers s ! c)) (timers s)) = []"
    using inv by (auto simp: timer_inv_def filter_empty_conv)
  then show ?thesis by (simp add: pending_def)
qed

text \<open>
  C9 (as the code has it).  A controller that is neither disposed nor aborted, in a state
  that satisfies the invariant \<open>timer_inv\<close> and in which no timer other than the
  controller's own pending one falls due up to the second deadline, is given
  \<open>abortAfter d1\<close> and, \<open>e < d1\<close> milliseconds later, \<open>abortAfter d2\<close> with
  \<open>d1 < d2\<close> and \<open>d2\<close> at most \<open>TIMEOUT_MAX\<close> (2^31 - 1 ms, the longest delay
  the timer runs as given).  The first timer is cancelled: the queue holds the other
  timers and the second timer, which is the only deferred abort of the controller; the
  signal is not aborted when the first delay has passed nor at any time before the second
  timer is due, no callback has run until then, and from the time the second timer is due
  (\<open>d2\<close> after the second call) the signal is aborted.

  At any time a controller has at most one deferred abort outstanding: the invariant
  \<open>timer_inv\<close> holds initially and is kept by every call and by time passing, and it
  bounds the outstanding deferred aborts of a controller by one.  Under it, \<open>abort\<close>
  and \<open>dispose\<close> leave no deferred abort of the controller outstanding, and
  \<open>abortAfter\<close> on a controller that is not disposed leaves exactly the new one, due
  after the delay the timer runs.
\<close>

theorem abortAfter_last_call_wins:
  "(timer_inv s \<and> controller_ok c s \<and> \<not> isDisposed c s \<and> \<not> isAborted c s
      \<and> (\<forall>t\<in>set (timers s). Some (timer_id t) \<noteq> timeoutId (controllers s ! c)
             \<longrightarrow> now s + e + d2 < due t)
      \<and> d1 < d2 \<and> d2 \<le> TIMEOUT_MAX \<and> e < d1 \<longrightarrow>
        timers (abortAfter c d2 (sleep e (abortAfter c d1 s)))
          = filter (\<lambda>t. Some (timer_id t) \<noteq> timeoutId (controllers s ! c)) (timers s)
            @ [\<lparr>timer_id = Suc (fresh s), due = now s + e + d2,
                timer_callback = ControllerAbort c None\<rparr>]
      \<and> pending c (abortAfter c d2 (sleep e (abortAfter c d1 s)))
          = [\<lparr>timer_id = Suc (fresh s), due = now s + e + d2,
              timer_callback = ControllerAbort c None\<rparr>]
      \<and> \<not> isAborted c (advance_to (now s + d1) (abortAfter c d2 (sleep e (abortAfter c d1 s))))
      \<and> (T < now s + e + d2 \<longrightarrow>
            \<not> isAborted c (advance_to T (abortAfter c d2 (sleep e (abortAfter c d1 s))))
            \<and> calls (advance_to T (abortAfter c d2 (sleep e (abortAfter c d1 s)))) = calls s)
      \<and> (now s + e + d2 \<le> T \<longrightarrow>
            isAborted c (advance_to T (abortAfter c d2 (sleep e (abortAfter c d1 s))))))
   \<and> timer_inv init
   \<and> (timer_inv s \<and> call_ok k s \<and> exec k s = Inr s' \<longrightarrow> timer_inv s')
   \<and> (timer_inv s \<longrightarrow> timer_inv (sleep e s))
   \<and> (timer_inv s \<longrightarrow> length (pending c s) \<le> 1)
   \<and> (timer_inv s \<and> c < length (controllers s) \<longrightarrow>
         pending c (abort c r s) = []
       \<and> pending c (dispose c s) = []
       \<and> (\<not> isDisposed c s \<longrightarrow>
            pending c (abortAfter c ms s)
              = [\<lparr>timer_id = fresh s, due = now s + timer_delay ms,
                  timer_callback = ControllerAbort c None\<rparr>]))"
proof -
  let ?s3 = "abortAfter c d2 (sleep e (abortAfter c d1 s))"
  let ?O = "filter (\<lambda>t. Some (timer_id t) \<noteq> timeoutId (controllers s ! c)) (timers s)"
  let ?t2 = "\<lparr>timer_id = Suc (fresh s), due = now s + e + d2,
              timer_callback = ControllerAbort c None\<rparr>"
  have A: "timers ?s3 = ?O @ [?t2]
      \<and> pending c ?s3 = [?t2]
      \<and> \<not> isAborted c (advance_to (now s + d1) ?s3)
      \<and> (T < now s + e + d2 \<longrightarrow>
            \<not> isAborted c (advance_to T ?s3) \<and> calls (advance_to T ?s3) = calls s)
      \<and> (now s + e + d2 \<le> T \<longrightarrow> isAborted c (advance_to T ?s3))"
    if h: "timer_inv s" "controller_ok c s" "\<not> isDisposed c s" "\<not> isAborted c s"
      "\<forall>t\<in>set (timers s). Some (timer_id t) \<noteq> timeoutId (controllers s ! c)
             \<longrightarrow> now s + e + d2 < due t"
      "d1 < d2" "d2 \<le> TIMEOUT_MAX" "e < d1"
  proof -
    have lt: "now s + d1 < now s + e + d2" using h(6) by simp
    have t3: "timers ?s3 = ?O @ [?t2]"
      by (rule abortAfter_last_wins(1)[OF h])
    have "pending c ?s3 = pending c (?s3\<lparr>timers := ?O @ [?t2]\<rparr>)"
      by (simp add: pending_def t3)
    also have "\<dots> = [?t2]"
      by (simp add: pending_last_wins[OF h(1)])
    finally have p: "pending c ?s3 = [?t2]" .
    show ?thesis
      using t3 p abortAfter_last_wins(2)[OF h lt] abortAfter_last_wins(2)[OF h, of T]
        abortAfter_last_wins(3)[OF h, of T] by blast
  qed
  have B: "timer_inv s'" if "timer_inv s" "call_ok k s" "exec k s = Inr s'"
    using that by (rule timer_inv_exec)
  have C: "pending c (abort c r s) = [] \<and> pending c (dispose c s) = []
       \<and> (\<not> isDisposed c s \<longrightarrow>
            pending c (abortAfter c ms s)
              = [\<lparr>timer_id = fresh s, due = now s + timer_delay ms,
                  timer_callback = ControllerAbort c None\<rparr>])"
    if "timer_inv s" "c < length (controllers s)"
    using pending_abort[OF that] pending_dispose[OF that] pending_abortAfter[OF that]
    by (simp add: isDisposed_def)
  show ?thesis
    using A B C timer_inv_init pending_at_most_one timer_inv_sleep by blast
qed

theorem abortAfter_last_call_wins_witness:
  "timers (abortAfter 0 300 (sleep 50 (abortAfter 0 100
       (snd (signal_timeout 1000 (snd (new_EnhancedAbortController init)))))))
     = [\<lparr>timer_id = 0, due = 1000, timer_callback = NativeAbort 1 None\<rparr>,
        \<lparr>timer_id = 2, due = 350, timer_callback = ControllerAbort 0 None\<rparr>]
   \<and> \<not> isAborted 0 (advance_to 100 (abortAfter 0 300 (sleep 50 (abortAfter 0 100
       (snd (signal_timeout 1000 (snd (new_EnhancedAbortController init))))))))
   \<and> \<not> isAborted 0 (advance_to 349 (abortAfter 0 300 (sleep 50 (abortAfter 0 100
       (snd (signal_timeout 1000 (snd (new_EnhancedAbortController init))))))))
   \<and> isAborted 0 (advance_to 350 (abortAfter 0 300 (sleep 50 (abortAfter 0 100
       (snd (signal_timeout 1000 (snd (new_EnhancedAbortController init))))))))
   \<and> timer_inv (abortAfter 0 100 (snd (signal_timeout 1000 (snd (new_EnhancedAbortController init)))))
   \<and> length (pending 0 (abortAfter 0 100
       (snd (signal_timeout 1000 (snd (new_EnhancedAbortController init)))))) \<le> 1
   \<and> pending 0 (abort 0 None (abortAfter 0 100
       (snd (signal_timeout 1000 (snd (new_EnhancedAbortController init)))))) = []"
proof -
  let ?s = "snd (signal_timeout 1000 (snd (new_EnhancedAbortController init)))"
  let ?s3 = "abortAfter 0 300 (sleep 50 (abortAfter 0 100 ?s))"
  have s: "?s = \<lparr>signals = [\<lparr>aborted = False, reason = Undefined, listeners = []\<rparr>,
                             \<lparr>aborted = False, reason = Undefined, listeners = []\<rparr>],
      controllers = [\<lparr>controller = 0,
          private_signal = \<lparr>abortSignal = 0, private_canBeAborted = True\<rparr>,
          timeoutId = None, disposed = False\<rparr>],
      registrations = [], promises = [],
      timers = [\<lparr>timer_id = 0, due = 1000, timer_callback = NativeAbort 1 None\<rparr>],
      microtasks = [], now = 0, fresh = 1, calls = [], action_log = []\<rparr>"
    by (simp add: eval_defs signal_timeout_def setTimeout_def timer_delay_def TIMEOUT_MAX_def)
  have inv0: "timer_inv ?s"
    unfolding s by (simp add: timer_inv_def)
  have h: "controller_ok 0 ?s" "\<not> isDisposed 0 ?s" "\<not> isAborted 0 ?s"
    "\<forall>t\<in>set (timers ?s). Some (timer_id t) \<noteq> timeoutId (controllers ?s ! 0)
        \<longrightarrow> now ?s + 50 + 300 < due t"
    "(100::nat) < 300" "(300::nat) \<le> TIMEOUT_MAX" "(50::nat) < 100"
    unfolding s by (simp_all add: controller_ok_def isDisposed_def isAborted_def TIMEOUT_MAX_def)
  have v: "now ?s = 0" "fresh ?s = 1"
    "filter (\<lambda>t. Some (timer_id t) \<noteq> timeoutId (controllers ?s ! 0)) (timers ?s)
       = [\<lparr>timer_id = 0, due = 1000, timer_callback = NativeAbort 1 None\<rparr>]"
    unfolding s by simp_all
  have ok: "call_ok (AbortAfter 0 100) ?s" unfolding s by simp
  have ex: "exec (AbortAfter 0 100) ?s = Inr (abortAfter 0 100 ?s)" by simp
  have c1: "0 < length (controllers (abortAfter 0 100 ?s))"
    by (simp add: abortAfter_frame s)
  note a1 = abortAfter_last_call_wins[of ?s 0 50 300 100 349 "AbortAfter 0 100"
      "abortAfter 0 100 ?s" None 0]
  note a2 = abortAfter_last_call_wins[of ?s 0 50 300 100 350 "AbortAfter 0 100"
      "abortAfter 0 100 ?s" None 0]
  have p0: "timers ?s3 = filter (\<lambda>t. Some (timer_id t) \<noteq> timeoutId (controllers ?s ! 0)) (timers ?s)
            @ [\<lparr>timer_id = Suc (fresh ?s), due = now ?s + 50 + 300,
                timer_callback = ControllerAbort 0 None\<rparr>]"
    using a1 inv0 h by blast
  have p0': "timers ?s3 = [\<lparr>timer_id = 0, due = 1000, timer_callback = NativeAbort 1 None\<rparr>,
        \<lparr>timer_id = 2, due = 350, timer_callback = ControllerAbort 0 None\<rparr>]"
    unfolding p0 v by simp
  have p1: "\<not> isAborted 0 (advance_to (now ?s + 100) ?s3)"
    using a1 inv0 h by blast
  have p1': "\<not> isAborted 0 (advance_to 100 ?s3)"
    using p1 unfolding v by simp
  have "(349::nat) < now ?s + 50 + 300" unfolding v by simp
  then have p2: "\<not> isAborted 0 (advance_to 349 ?s3)"
    using a1 inv0 h by blast
  have "now ?s + 50 + 300 \<le> (350::nat)" unfolding v by simp
  then have p3: "isAborted 0 (advance_to 350 ?s3)"
    using a2 inv0 h by blast
  have p4: "timer_inv (abortAfter 0 100 ?s)"
    using a1 inv0 ok ex by blast
  note a3 = abortAfter_last_call_wins[of "abortAfter 0 100 ?s" 0 50 300 100 100 "AbortAfter 0 100"
      "abortAfter 0 100 ?s" None 0]
  have p5: "length (pending 0 (abortAfter 0 100 ?s)) \<le> 1"
    using a3 p4 by blast
  have p6: "pending 0 (abort 0 None (abortAfter 0 100 ?s)) = []"
    using a3 p4 c1 by blast
  show ?thesis using p0' p1' p2 p3 p4 p5 p6 by blast
qed

text \<open>The claim as the specification states it fails for a second delay above
  \<open>TIMEOUT_MAX\<close>: after \<open>abortAfter(100)\<close> and, 50 ms later,
  \<open>abortAfter(2147483648)\<close>, the timer runs the second delay as 1 ms.  The signal is
  aborted 51 ms after the first call: before the first delay has passed, and not at the
  second.\<close>

theorem abortAfter_large_delay_counterexample:
  "\<not> isAborted 0 (advance_to 50
       (abortAfter 0 2147483648 (sleep 50 (abortAfter 0 100 (snd (new_EnhancedAbortController init))))))
   \<and> isAborted 0 (advance_to 51
       (abortAfter 0 2147483648 (sleep 50 (abortAfter 0 100 (snd (new_EnhancedAbortController init))))))
   \<and> isAborted 0 (advance_to 100
       (abortAfter 0 2147483648 (sleep 50 (abortAfter 0 100 (snd (new_EnhancedAbortController init))))))"
proof -
  let ?s3 = "abortAfter 0 2147483648 (sleep 50 (abortAfter 0 100 (snd (new_EnhancedAbortController init))))"
  have s: "?s3 = \<lparr>signals = [\<lparr>aborted = False, reason = Undefined, listeners = []\<rparr>],
      controllers = [\<lparr>controller = 0,
          private_signal = \<lparr>abortSignal = 0, private_canBeAborted = True\<rparr>,
          timeoutId = Some 1, disposed = False\<rparr>],
      registrations = [], promises = [],
      timers = [\<lparr>timer_id = 1, due = 51, timer_callback = ControllerAbort 0 None\<rparr>],
      microtasks = [], now = 50, fresh = 2, calls = [], action_log = []\<rparr>"
    by (simp add: eval_loop_defs abortAfter_def setTimeout_def clearTimeout_native_def)
  have a: "\<not> isAborted 0 (advance_to 50 ?s3)"
    unfolding s by (simp add: eval_loop_defs clearTimeout_native_def)
  have b: "isAborted 0 (advance_to 51 ?s3)"
    unfolding s by (simp add: eval_loop_defs clearTimeout_native_def)
  have c: "isAborted 0 (advance_to 100 ?s3)"
    unfolding s by (simp add: eval_loop_defs clearTimeout_native_def)
  show ?thesis using a b c by blast
qed

section \<open>Combinators over an input that is already aborted\<close>

lemma register_all_keeps_aborted:
  "aborted (signals s ! x) \<Longrightarrow> aborted (signals (register_all gs cb s) ! x)"
  by (induction gs arbitrary: s) (simp_all add: register_keeps_aborted)

lemma register_all_NativeAbort:
  assumes "a < length (signals s)" and "\<exists>g\<in>set gs. aborted (signals s ! abortSignal g)"
  shows "aborted (signals (register_all gs (NativeAbort a r) s) ! a)"
  using assms
proof (induction gs arbitrary: s)
  case Nil
  then show ?case by simp
next
  case (Cons g gs)
  let ?s = "snd (register g (NativeAbort a r) s)"
  show ?case
  proof (cases "aborted (signals s ! abortSignal g)")
    case True
    then have "?s = snd (new_AbortRegistration EmptyAction (run [NativeAbort a r] s))"
      by (simp add: register_def signal_isAborted_def)
    then have "aborted (signals ?s ! a)"
      using run_NativeAbort_aborts[OF Cons.prems(1), of r]
      by (simp add: new_AbortRegistration_def)
    then show ?thesis by (simp add: register_all_keeps_aborted)
  next
    case False
    then have "\<exists>g\<in>set gs. aborted (signals s ! abortSignal g)"
      using Cons.prems(2) by auto
    then have "\<exists>g\<in>set gs. aborted (signals ?s ! abortSignal g)"
      using register_keeps_aborted by blast
    moreover have "a < length (signals ?s)" using Cons.prems(1) by simp
    ultimately show ?thesis using Cons.IH by simp
  qed
qed

lemma register_all_ControllerAbort:
  assumes "c < length (controllers s)" and "\<not> disposed (controllers s ! c)"
    and "controller (controllers s ! c) < length (signals s)"
    and "\<exists>g\<in>set gs. aborted (signals s ! abortSignal g)"
  shows "aborted (signals (register_all gs (ControllerAbort c r) s) ! controller (controllers s ! c))"
  using assms
proof (induction gs arbitrary: s)
  case Nil
  then show ?case by simp
next
  case (Cons g gs)
  let ?s = "snd (register g (ControllerAbort c r) s)"
  show ?case
  proof (cases "aborted (signals s ! abortSignal g)")
    case True
    then have "?s = snd (new_AbortRegistration EmptyAction (run [ControllerAbort c r] s))"
      by (simp add: register_def signal_isAborted_def)
    then have "aborted (signals ?s ! controller (controllers s ! c))"
      using run_ControllerAbort_aborts[OF Cons.prems(1-3), of r]
      by (simp add: new_AbortRegistration_def)
    then show ?thesis by (simp add: register_all_keeps_aborted)
  next
    case False
    then have "\<exists>g\<in>set gs. aborted (signals s ! abortSignal g)"
      using Cons.prems(4) by auto
    then have "\<exists>g\<in>set gs. aborted (signals ?s ! abortSignal g)"
      using register_keeps_aborted by blast
    moreover have "c < length (controllers ?s)" "\<not> disposed (controllers ?s ! c)"
      "controller (controllers ?s ! c) < length (signals ?s)"
      using Cons.prems(1-3) by simp_all
    ultimately show ?thesis using Cons.IH[of ?s] by simp
  qed
qed

text \<open>
  C10.  The input signals exist and at least one of them is already aborted.  Then the
  signal returned by \<open>EnhancedAbortSignal.any\<close> is aborted when \<open>any\<close> returns,
  and the controller returned by \<open>linkSignals\<close> (and by its alias
  \<open>createLinkedController\<close>) is aborted when it is returned: \<open>register\<close> on the
  aborted input calls the aborting callback during the loop.
\<close>

theorem combinators_fire_at_construction:
  assumes "\<forall>g\<in>set gs. abortSignal g < length (signals s)"
    and "\<exists>g\<in>set gs. signal_isAborted g s"
  shows "signal_isAborted (fst (signal_any gs s)) (snd (signal_any gs s))
       \<and> isAborted (fst (linkSignals gs s)) (snd (linkSignals gs s))
       \<and> signal_isAborted (signal (fst (linkSignals gs s)) (snd (linkSignals gs s)))
            (snd (linkSignals gs s))
       \<and> isAborted (fst (createLinkedController gs s)) (snd (createLinkedController gs s))"
proof -
  let ?a = "length (signals s)"
  let ?s1 = "snd (new_AbortController s)"
  have ex1: "\<exists>g\<in>set gs. aborted (signals ?s1 ! abortSignal g)"
    using assms by (auto simp: new_AbortController_def signal_isAborted_def nth_append)
  have any: "signal_isAborted (fst (signal_any gs s)) (snd (signal_any gs s))"
    using register_all_NativeAbort[of ?a ?s1 gs None] ex1
    by (simp add: signal_any_def signal_isAborted_def new_AbortController_def)
  let ?c = "length (controllers s)"
  let ?s2 = "snd (new_EnhancedAbortController s)"
  have ex2: "\<exists>g\<in>set gs. aborted (signals ?s2 ! abortSignal g)"
    using assms
    by (auto simp: new_EnhancedAbortController_def new_AbortController_def signal_isAborted_def nth_append)
  have c2: "?c < length (controllers ?s2)" "\<not> disposed (controllers ?s2 ! ?c)"
    "controller (controllers ?s2 ! ?c) = ?a" "?a < length (signals ?s2)"
    "private_signal (controllers ?s2 ! ?c) = \<lparr>abortSignal = ?a, private_canBeAborted = True\<rparr>"
    by (simp_all add: new_EnhancedAbortController_def new_AbortController_def)
  have "aborted (signals (register_all gs (ControllerAbort ?c None) ?s2) ! ?a)"
    using register_all_ControllerAbort[of ?c ?s2 gs None] c2 ex2 by simp
  then have link: "isAborted (fst (linkSignals gs s)) (snd (linkSignals gs s))
       \<and> signal_isAborted (signal (fst (linkSignals gs s)) (snd (linkSignals gs s)))
            (snd (linkSignals gs s))"
    using c2 by (simp add: linkSignals_def isAborted_def signal_isAborted_def signal_def
        case_prod_beta)
  show ?thesis using any link by (simp add: createLinkedController_def)
qed

theorem combinators_fire_at_construction_witness:
  "signal_isAborted
     (fst (signal_any [\<lparr>abortSignal = 1, private_canBeAborted = True\<rparr>,
                       \<lparr>abortSignal = 0, private_canBeAborted = True\<rparr>]
            (snd (new_EnhancedAbortController (snd (signal_aborted init))))))
     (snd (signal_any [\<lparr>abortSignal = 1, private_canBeAborted = True\<rparr>,
                       \<lparr>abortSignal = 0, private_canBeAborted = True\<rparr>]
            (snd (new_EnhancedAbortController (snd (signal_aborted init))))))
   \<and> isAborted
     (fst (linkSignals [\<lparr>abortSignal = 1, private_canBeAborted = True\<rparr>,
                        \<lparr>abortSignal = 0, private_canBeAborted = True\<rparr>]
            (snd (new_EnhancedAbortController (snd (signal_aborted init))))))
     (snd (linkSignals [\<lparr>abortSignal = 1, private_canBeAborted = True\<rparr>,
                        \<lparr>abortSignal = 0, private_canBeAborted = True\<rparr>]
            (snd (new_EnhancedAbortController (snd (signal_aborted init))))))"
proof -
  let ?s = "snd (new_EnhancedAbortController (snd (signal_aborted init)))"
  let ?gs = "[\<lparr>abortSignal = 1, private_canBeAborted = True\<rparr>,
              \<lparr>abortSignal = 0, private_canBeAborted = True\<rparr>]"
  have a: "\<forall>g\<in>set ?gs. abortSignal g < length (signals ?s)"
    by (simp add: eval_defs)
  have b: "\<exists>g\<in>set ?gs. signal_isAborted g ?s"
    by (simp add: eval_defs)
  show ?thesis
    using combinators_fire_at_construction[OF a b] by blast
qed

end
